theory Spec2Isabelle
  imports Main "HOL-Library.AList"
begin

section \<open>Shared result types\<close>

text \<open>
  JavaScript values that the orchestration layer never inspects (\<^verbatim>\<open>any\<close> in the
  source: step data, bulk items) are a type variable \<open>'d\<close>. Numbers are integers;
  fractional and non-finite numbers are outside this model, and so are the wall-clock
  fields (\<^verbatim>\<open>startTime\<close>, \<^verbatim>\<open>endTime\<close>, \<^verbatim>\<open>duration\<close>, \<^verbatim>\<open>timestamp\<close>), which no
  control decision of the source reads.

  A value that is thrown (or with which a promise rejects) is either an \<^verbatim>\<open>Error\<close>
  object, kept with its message, or some other value, kept with its \<^verbatim>\<open>String(...)\<close>
  rendering. \<open>errorText\<close> is the source's
  \<^verbatim>\<open>error instanceof Error ? error.message : String(error)\<close>.
\<close>

datatype thrown = JsError string | JsValue string

fun errorText :: "thrown \<Rightarrow> string" where
  "errorText (JsError m) = m"
| "errorText (JsValue s) = s"

text \<open>
  \<^verbatim>\<open>AgentResult\<close> (types.ts). The \<^verbatim>\<open>data\<close> field holds either an opaque value or the
  object \<^verbatim>\<open>{ item: x }\<close> that the bulk executor synthesises.
\<close>

datatype 'd resultData = Raw 'd | ItemOf 'd

record 'd AgentResult =
  success :: bool
  message :: "string option"
  error :: "string option"
  data :: "'d resultData option"

text \<open>How an awaited agent call settles: it fulfils with a result or rejects.\<close>

datatype 'd settled = Fulfilled "'d AgentResult" | Rejected thrown

definition failure :: "string \<Rightarrow> 'd AgentResult" where
  "failure msg = \<lparr>success = False, message = None, error = Some msg, data = None\<rparr>"

section \<open>Workflow runner: AgentCoordinatorEnhanced\<close>

text \<open>
  The coordinator's \<^verbatim>\<open>agents\<close> map and the agents' methods are external. \<open>hasAgent\<close>
  says whether \<^verbatim>\<open>this.agents.get(key)\<close> is truthy; \<open>callAgent k key method arg\<close> is how
  the call \<^verbatim>\<open>agent.method(arg)\<close> made for the step processed at position \<open>k\<close> settles
  (a missing method is a rejection with a \<^verbatim>\<open>TypeError\<close>).
\<close>

record 'd coordinator =
  hasAgent :: "string \<Rightarrow> bool"
  callAgent :: "nat \<Rightarrow> string \<Rightarrow> string \<Rightarrow> 'd \<Rightarrow> 'd settled"

definition executeSEOOperation :: "'d coordinator \<Rightarrow> nat \<Rightarrow> string \<Rightarrow> 'd \<Rightarrow> 'd settled" where
  "executeSEOOperation c k ty d =
     (if \<not> hasAgent c ''seo'' then
        Fulfilled (failure ''Enhanced SEO agent not available for current page'')
      else if ty = ''optimize'' then callAgent c k ''seo'' ''optimizeSEO'' d
      else if ty = ''validate'' then callAgent c k ''seo'' ''validateSEOFields'' d
      else if ty = ''bulk-update'' then callAgent c k ''seo'' ''bulkUpdateSEO'' d
      else if ty = ''extract'' then callAgent c k ''seo'' ''extractSEOData'' d
      else Fulfilled (failure (''Unknown SEO operation: '' @ ty)))"

definition executeNavigationOperation :: "'d coordinator \<Rightarrow> nat \<Rightarrow> string \<Rightarrow> 'd \<Rightarrow> 'd settled" where
  "executeNavigationOperation c k ty d =
     (if \<not> hasAgent c ''navigation'' then
        Fulfilled (failure ''Enhanced Navigation agent not available'')
      else if ty = ''navigate'' then callAgent c k ''navigation'' ''navigateToPage'' d
      else if ty = ''search'' then callAgent c k ''navigation'' ''performSearch'' d
      else if ty = ''validate'' then callAgent c k ''navigation'' ''validatePageLoad'' d
      else if ty = ''extract-results'' then callAgent c k ''navigation'' ''extractSearchResults'' d
      else Fulfilled (failure (''Unknown navigation operation: '' @ ty)))"

definition executeCatalogOperation :: "'d coordinator \<Rightarrow> nat \<Rightarrow> string \<Rightarrow> 'd \<Rightarrow> 'd settled" where
  "executeCatalogOperation c k ty d =
     (if \<not> hasAgent c ''catalog'' then
        Fulfilled (failure ''Enhanced Catalog agent not available'')
      else if ty = ''sync'' then callAgent c k ''catalog'' ''synchronizeCatalog'' d
      else if ty = ''inventory'' then callAgent c k ''catalog'' ''updateInventory'' d
      else if ty = ''pricing'' then callAgent c k ''catalog'' ''updatePricing'' d
      else if ty = ''extract'' then callAgent c k ''catalog'' ''extractCatalogData'' d
      else Fulfilled (failure (''Unknown catalog operation: '' @ ty)))"

text \<open>
  A workflow step. \<^verbatim>\<open>agentType\<close> is a string at run time (workflows arrive in untyped
  messages), so the \<^verbatim>\<open>default\<close> branch of the dispatch switch is reachable. An
  absent \<^verbatim>\<open>critical\<close> is falsy.
\<close>

record 'd WorkflowStep =
  agentType :: string
  operation :: string
  stepData :: 'd
  dependsOn :: "string list option"
  critical :: bool

record 'd Workflow =
  name :: string
  steps :: "'d WorkflowStep list"

text \<open>
  The two locals of \<^verbatim>\<open>executeEnhancedWorkflow\<close>, and a ghost list \<open>dispatched\<close> of the steps
  that reached the dispatch switch (it is never read by the model).
\<close>

record 'd wfState =
  results :: "'d AgentResult list"
  stepResults :: "string \<rightharpoonup> 'd AgentResult"
  dispatched :: "'d WorkflowStep list"

definition dependenciesMet :: "'d wfState \<Rightarrow> string list \<Rightarrow> bool" where
  "dependenciesMet \<sigma> deps =
     list_all (\<lambda>dep. case stepResults \<sigma> dep of None \<Rightarrow> False | Some r \<Rightarrow> success r) deps"

definition blocked :: "'d wfState \<Rightarrow> 'd WorkflowStep \<Rightarrow> bool" where
  "blocked \<sigma> step =
     (case dependsOn step of None \<Rightarrow> False | Some deps \<Rightarrow> \<not> dependenciesMet \<sigma> deps)"

definition failedResult :: "'d WorkflowStep \<Rightarrow> 'd AgentResult" where
  "failedResult step =
     \<lparr>success = False, message = None,
      error = Some (''Dependencies not met for step: '' @ operation step),
      data = Some (Raw (stepData step))\<rparr>"

definition dispatchStep :: "'d coordinator \<Rightarrow> nat \<Rightarrow> 'd WorkflowStep \<Rightarrow> 'd settled" where
  "dispatchStep c k step =
     (if agentType step = ''seo'' then executeSEOOperation c k (operation step) (stepData step)
      else if agentType step = ''navigation'' then
        executeNavigationOperation c k (operation step) (stepData step)
      else if agentType step = ''catalog'' then
        executeCatalogOperation c k (operation step) (stepData step)
      else Fulfilled (failure (''Unknown agent type: '' @ agentType step)))"

definition record_result :: "'d WorkflowStep \<Rightarrow> 'd AgentResult \<Rightarrow> 'd wfState \<Rightarrow> 'd wfState" where
  "record_result step r \<sigma> =
     \<sigma>\<lparr>results := results \<sigma> @ [r], stepResults := (stepResults \<sigma>)(operation step \<mapsto> r)\<rparr>"

definition note_dispatch :: "'d WorkflowStep \<Rightarrow> 'd wfState \<Rightarrow> 'd wfState" where
  "note_dispatch step \<sigma> = \<sigma>\<lparr>dispatched := dispatched \<sigma> @ [step]\<rparr>"

text \<open>
  The \<^verbatim>\<open>for (const step of workflow.steps)\<close> loop. The first component of its value
  says how the loop was left: it ran through the list, it hit a \<^verbatim>\<open>break\<close>, or an
  exception escaped (the \<^verbatim>\<open>catch\<close> block receives it).
\<close>

datatype loopExit = Finished | Stopped | Threw thrown

fun workflowLoop ::
  "'d coordinator \<Rightarrow> 'd wfState \<Rightarrow> 'd WorkflowStep list \<Rightarrow> loopExit \<times> 'd wfState" where
  "workflowLoop c \<sigma> [] = (Finished, \<sigma>)"
| "workflowLoop c \<sigma> (step # rest) =
     (if blocked \<sigma> step then
        (let \<sigma>' = record_result step (failedResult step) \<sigma>
         in if critical step then (Stopped, \<sigma>') else workflowLoop c \<sigma>' rest)
      else
        (case dispatchStep c (length (results \<sigma>)) step of
           Rejected e \<Rightarrow> (Threw e, note_dispatch step \<sigma>)
         | Fulfilled r \<Rightarrow>
             (let \<sigma>' = record_result step r (note_dispatch step \<sigma>)
              in if \<not> success r \<and> critical step then (Stopped, \<sigma>')
                 else workflowLoop c \<sigma>' rest)))"

definition initialWf :: "'d wfState" where
  "initialWf = \<lparr>results = [], stepResults = Map.empty, dispatched = []\<rparr>"

text \<open>Decimal rendering of a number inside a template literal.\<close>

fun showNat :: "nat \<Rightarrow> string" where
  "showNat n =
     (if n < 10 then [char_of (48 + n)] else showNat (n div 10) @ [char_of (48 + n mod 10)])"

declare showNat.simps [simp del]

record 'd WorkflowResult =
  wfSuccess :: bool
  wfResults :: "'d AgentResult list"
  wfMessage :: string

definition executeEnhancedWorkflow :: "'d coordinator \<Rightarrow> 'd Workflow \<Rightarrow> 'd WorkflowResult" where
  "executeEnhancedWorkflow c workflow =
     (case workflowLoop c initialWf (steps workflow) of
        (Threw e, \<sigma>) \<Rightarrow>
          \<lparr>wfSuccess = False, wfResults = results \<sigma>,
           wfMessage = ''Enhanced workflow '' @ [CHR 0x27] @ name workflow @ [CHR 0x27]
             @ '' failed: '' @ errorText e\<rparr>
      | (_, \<sigma>) \<Rightarrow>
          (let successCount = length (filter success (results \<sigma>));
               totalCount = length (results \<sigma>)
           in \<lparr>wfSuccess = successCount > 0, wfResults = results \<sigma>,
               wfMessage = ''Enhanced workflow '' @ [CHR 0x27] @ name workflow @ [CHR 0x27]
                 @ '' completed: '' @ showNat successCount @ ''/'' @ showNat totalCount
                 @ '' steps successful''\<rparr>))"

text \<open>The steps that reached the dispatch switch during a run (ghost).\<close>

definition dispatchedSteps :: "'d coordinator \<Rightarrow> 'd Workflow \<Rightarrow> 'd WorkflowStep list" where
  "dispatchedSteps c workflow = dispatched (snd (workflowLoop c initialWf (steps workflow)))"


section \<open>Bulk operation runner: BulkOperationManager\<close>

datatype runStatus = Pending | Running | Completed | Failed | Cancelled

record BulkOperationStatus =
  opId :: string
  opType :: string
  totalItems :: nat
  processedItems :: nat
  successCount :: nat
  failureCount :: nat
  status :: runStatus

text \<open>
  \<^verbatim>\<open>BulkOperationConfig\<close>. The progress callback is caller code: applied to the snapshot it
  is given, it returns normally (\<open>None\<close>) or throws.
\<close>

record 'd BulkOperationConfig =
  bulkType :: string
  bulkAgentType :: string
  items :: "'d list"
  batchSize :: "int option"
  delayBetweenBatches :: "int option"
  onProgress :: "(BulkOperationStatus \<Rightarrow> thrown option) option"

text \<open>
  Ghost events of a run, appended to \<open>trace\<close> and never read by the model:
  \<open>Launched k batch\<close>: \<^verbatim>\<open>processItem\<close> has been called on every item of batch \<open>k\<close>;
  \<open>Suspended s\<close>: the executor awaits, and \<^verbatim>\<open>getStatus()\<close> called meanwhile returns \<open>s\<close>;
  \<open>Joined k outcomes\<close>: \<^verbatim>\<open>Promise.allSettled\<close> has resolved, every item of batch \<open>k\<close> has
  settled; \<open>Progress s\<close>: \<^verbatim>\<open>onProgress\<close> is called with the snapshot \<open>s\<close>;
  \<open>Sleep ms\<close>: the delay between batches is awaited.
\<close>

datatype 'd event =
    Launched nat "'d list"
  | Suspended BulkOperationStatus
  | Joined nat "'d settled list"
  | Progress BulkOperationStatus
  | Sleep int

text \<open>The fields of a \<^verbatim>\<open>BulkOperation\<close> object (\<open>opStatus\<close> is its \<^verbatim>\<open>status\<close> record).\<close>

record 'd BulkOperation =
  opIdent :: string
  config :: "'d BulkOperationConfig"
  opStatus :: BulkOperationStatus
  cancelled :: bool
  opResults :: "'d AgentResult list"
  trace :: "'d event list"

text \<open>
  What is external to a run: whether \<^verbatim>\<open>this.agents.get(key)\<close> is truthy; how the agent
  call made for the \<open>n\<close>-th item dispatched in the run settles; and whether \<^verbatim>\<open>cancel()\<close> is
  called on the operation while iteration \<open>k\<close> of the batch loop is suspended (awaiting the
  batch or the delay after it).
\<close>

record 'd bulkEnv =
  agentFor :: "string \<Rightarrow> bool"
  invoke :: "nat \<Rightarrow> string \<Rightarrow> 'd \<Rightarrow> 'd settled"
  cancelDuring :: "nat \<Rightarrow> bool"

definition newBulkOperation :: "string \<Rightarrow> 'd BulkOperationConfig \<Rightarrow> 'd BulkOperation" where
  "newBulkOperation ident cfg =
     \<lparr>opIdent = ident, config = cfg,
      opStatus = \<lparr>opId = ident, opType = bulkType cfg, totalItems = length (items cfg),
                  processedItems = 0, successCount = 0, failureCount = 0, status = Pending\<rparr>,
      cancelled = False, opResults = [], trace = []\<rparr>"

definition cancel :: "'d BulkOperation \<Rightarrow> 'd BulkOperation" where
  "cancel op = op\<lparr>cancelled := True\<rparr>"

definition getStatus :: "'d BulkOperation \<Rightarrow> BulkOperationStatus" where
  "getStatus op = opStatus op"

definition isCompleted :: "'d BulkOperation \<Rightarrow> bool" where
  "isCompleted op \<longleftrightarrow> status (opStatus op) \<in> {Completed, Failed, Cancelled}"

definition setStatus :: "runStatus \<Rightarrow> 'd BulkOperation \<Rightarrow> 'd BulkOperation" where
  "setStatus st op = op\<lparr>opStatus := (opStatus op)\<lparr>status := st\<rparr>\<rparr>"

definition logEvents :: "'d event list \<Rightarrow> 'd BulkOperation \<Rightarrow> 'd BulkOperation" where
  "logEvents es op = op\<lparr>trace := trace op @ es\<rparr>"

definition processItem :: "'d bulkEnv \<Rightarrow> 'd BulkOperationConfig \<Rightarrow> nat \<Rightarrow> 'd \<Rightarrow> 'd settled" where
  "processItem env cfg n item =
     (if \<not> agentFor env (bulkAgentType cfg) then
        Rejected (JsError (''Agent not found: '' @ bulkAgentType cfg))
      else if bulkType cfg = ''seo-bulk-update'' then invoke env n ''handleSEOUpdate'' item
      else if bulkType cfg = ''catalog-bulk-sync'' then invoke env n ''synchronizeCatalog'' item
      else if bulkType cfg = ''inventory-bulk-update'' then invoke env n ''updateInventory'' item
      else if bulkType cfg = ''pricing-bulk-update'' then invoke env n ''updatePricing'' item
      else Rejected (JsError (''Unknown bulk operation type: '' @ bulkType cfg)))"

text \<open>\<^verbatim>\<open>String(x)\<close> for an optional string: \<^verbatim>\<open>undefined\<close> renders as its name.\<close>

definition jsString :: "string option \<Rightarrow> string" where
  "jsString x = (case x of None \<Rightarrow> ''undefined'' | Some t \<Rightarrow> t)"

definition itemFailure :: "string \<Rightarrow> 'd \<Rightarrow> 'd AgentResult" where
  "itemFailure msg item = \<lparr>success = False, message = None, error = Some msg, data = Some (ItemOf item)\<rparr>"

definition countSuccess :: "'d AgentResult \<Rightarrow> 'd BulkOperation \<Rightarrow> 'd BulkOperation" where
  "countSuccess v op =
     op\<lparr>opStatus := (opStatus op)\<lparr>successCount := successCount (opStatus op) + 1\<rparr>,
        opResults := opResults op @ [v]\<rparr>"

definition countFailure :: "string \<Rightarrow> 'd \<Rightarrow> 'd BulkOperation \<Rightarrow> 'd BulkOperation" where
  "countFailure msg item op =
     op\<lparr>opStatus := (opStatus op)\<lparr>failureCount := failureCount (opStatus op) + 1\<rparr>,
        opResults := opResults op @ [itemFailure msg item]\<rparr>"

text \<open>
  The callback of \<^verbatim>\<open>results.forEach\<close> in \<^verbatim>\<open>processBatch\<close>, for one settled item. The first
  component of the value is what the progress callback threw, if it threw.
\<close>

definition settleItem ::
  "'d BulkOperation \<Rightarrow> 'd settled \<times> 'd \<Rightarrow> thrown option \<times> 'd BulkOperation" where
  "settleItem op x =
     (let op1 = op\<lparr>opStatus := (opStatus op)\<lparr>processedItems := processedItems (opStatus op) + 1\<rparr>\<rparr>;
          op2 = (case fst x of
                   Fulfilled v \<Rightarrow>
                     if success v then countSuccess v op1
                     else countFailure (jsString (error v)) (snd x) op1
                 | Rejected reason \<Rightarrow> countFailure (errorText reason) (snd x) op1)
      in case onProgress (config op2) of
           None \<Rightarrow> (None, op2)
         | Some callback \<Rightarrow> (callback (getStatus op2), logEvents [Progress (getStatus op2)] op2))"

fun forEachResult ::
  "'d BulkOperation \<Rightarrow> ('d settled \<times> 'd) list \<Rightarrow> thrown option \<times> 'd BulkOperation" where
  "forEachResult op [] = (None, op)"
| "forEachResult op (x # xs) =
     (case settleItem op x of
        (Some e, op') \<Rightarrow> (Some e, op')
      | (None, op') \<Rightarrow> forEachResult op' xs)"

definition processBatch ::
  "'d bulkEnv \<Rightarrow> nat \<Rightarrow> 'd list \<Rightarrow> 'd BulkOperation \<Rightarrow> thrown option \<times> 'd BulkOperation" where
  "processBatch env k batch op =
     (let outcomes = map (\<lambda>(j, item). processItem env (config op) (processedItems (opStatus op) + j) item)
                       (enumerate 0 batch)
      in forEachResult
           (logEvents [Launched k batch, Suspended (getStatus op), Joined k outcomes] op)
           (zip outcomes batch))"

text \<open>\<^verbatim>\<open>Array.prototype.slice(start, end)\<close> on integer arguments.\<close>

definition jsSlice :: "'a list \<Rightarrow> int \<Rightarrow> int \<Rightarrow> 'a list" where
  "jsSlice xs start fin =
     (let n = int (length xs);
          from = (if start < 0 then max (n + start) 0 else min start n);
          to = (if fin < 0 then max (n + fin) 0 else min fin n)
      in take (nat (to - from)) (drop (nat from) xs))"

text \<open>
  The end of one loop iteration: the optional delay, and the cancel requests that arrived
  while the iteration was suspended. The \<^verbatim>\<open>cancelled\<close> flag is read next at the head of the
  loop.
\<close>

definition betweenBatches :: "'d bulkEnv \<Rightarrow> int \<Rightarrow> nat \<Rightarrow> int \<Rightarrow> 'd BulkOperation \<Rightarrow> 'd BulkOperation" where
  "betweenBatches env b k i op =
     (let op1 = (case delayBetweenBatches (config op) of
                   None \<Rightarrow> op
                 | Some ms \<Rightarrow>
                     if i + b < int (length (items (config op))) \<and> ms \<noteq> 0
                     then logEvents [Sleep ms, Suspended (getStatus op)] op else op)
      in if cancelDuring env k then cancel op1 else op1)"

text \<open>
  The \<^verbatim>\<open>for (let i = 0; i < items.length; i += batchSize)\<close> loop; \<open>k\<close> counts its
  iterations. A run that never leaves the loop has the value \<open>None\<close>.
\<close>

partial_function (option) batchLoop ::
  "'d bulkEnv \<Rightarrow> int \<Rightarrow> nat \<Rightarrow> int \<Rightarrow> 'd BulkOperation \<Rightarrow> (thrown option \<times> 'd BulkOperation) option" where
  "batchLoop env b k i op =
     (if i < int (length (items (config op))) then
        if cancelled op then Some (None, setStatus Cancelled op)
        else
          (case processBatch env k (jsSlice (items (config op)) i (i + b)) op of
             (Some e, op') \<Rightarrow> Some (Some e, op')
           | (None, op') \<Rightarrow> batchLoop env b (Suc k) (i + b) (betweenBatches env b k i op'))
      else Some (None, op))"

declare batchLoop.simps [code]

text \<open>
  The same loop, stopped after at most \<open>n\<close> iterations: \<open>AtHead k i op\<close> is the state in
  which iteration \<open>k\<close> is about to test \<open>i\<close>, \<open>Exited e op\<close> the state in which the loop
  has been left. It gives the states of a run that has not returned, also of one that
  never does.
\<close>

datatype 'd loopState = AtHead nat int "'d BulkOperation" | Exited "thrown option" "'d BulkOperation"

fun batchLoopFor ::
  "'d bulkEnv \<Rightarrow> int \<Rightarrow> nat \<Rightarrow> nat \<Rightarrow> int \<Rightarrow> 'd BulkOperation \<Rightarrow> 'd loopState" where
  "batchLoopFor env b 0 k i op = AtHead k i op"
| "batchLoopFor env b (Suc n) k i op =
     (if i < int (length (items (config op))) then
        if cancelled op then Exited None (setStatus Cancelled op)
        else
          (case processBatch env k (jsSlice (items (config op)) i (i + b)) op of
             (Some e, op') \<Rightarrow> Exited (Some e) op'
           | (None, op') \<Rightarrow> batchLoopFor env b n (Suc k) (i + b) (betweenBatches env b k i op'))
      else Exited None op)"

record 'd BulkOperationResult =
  bulkSuccess :: bool
  resOperationId :: string
  resTotalItems :: nat
  resSuccessCount :: nat
  resFailureCount :: nat
  bulkResults :: "'d AgentResult list"

text \<open>\<^verbatim>\<open>this.config.batchSize || 5\<close>: an absent size and 0 are falsy.\<close>

definition effectiveBatchSize :: "'d BulkOperationConfig \<Rightarrow> int" where
  "effectiveBatchSize cfg = (case batchSize cfg of None \<Rightarrow> 5 | Some x \<Rightarrow> if x = 0 then 5 else x)"

text \<open>
  \<^verbatim>\<open>BulkOperation.execute\<close>: \<open>Inl e\<close> is the exception re-thrown to the caller, \<open>Inr r\<close> the
  result returned; the second component is the object afterwards.
\<close>

definition execute ::
  "'d bulkEnv \<Rightarrow> 'd BulkOperation \<Rightarrow> ((thrown + 'd BulkOperationResult) \<times> 'd BulkOperation) option" where
  "execute env op0 =
     (case batchLoop env (effectiveBatchSize (config op0)) 0 0 (setStatus Running op0) of
        None \<Rightarrow> None
      | Some (Some e, op') \<Rightarrow> Some (Inl e, setStatus Failed op')
      | Some (None, op') \<Rightarrow>
          (let op'' = setStatus (if cancelled op' then Cancelled else Completed) op'
           in Some (Inr \<lparr>bulkSuccess = successCount (opStatus op'') > 0,
                         resOperationId = opIdent op'',
                         resTotalItems = totalItems (opStatus op''),
                         resSuccessCount = successCount (opStatus op''),
                         resFailureCount = failureCount (opStatus op''),
                         bulkResults = opResults op''\<rparr>, op'')))"

text \<open>
  \<^verbatim>\<open>execute\<close> watched after at most \<open>n\<close> iterations of its loop: the run is still in
  flight (its promise is pending), or it has settled with what \<^verbatim>\<open>execute\<close> returns or
  throws. \<open>observed\<close> is the operation object at that moment.
\<close>

datatype 'd run = InFlight "'d BulkOperation" | Settled "thrown + 'd BulkOperationResult" "'d BulkOperation"

definition executeFor :: "'d bulkEnv \<Rightarrow> nat \<Rightarrow> 'd BulkOperation \<Rightarrow> 'd run" where
  "executeFor env n op0 =
     (case batchLoopFor env (effectiveBatchSize (config op0)) n 0 0 (setStatus Running op0) of
        AtHead k i op' \<Rightarrow> InFlight op'
      | Exited (Some e) op' \<Rightarrow> Settled (Inl e) (setStatus Failed op')
      | Exited None op' \<Rightarrow>
          (let op'' = setStatus (if cancelled op' then Cancelled else Completed) op'
           in Settled (Inr \<lparr>bulkSuccess = successCount (opStatus op'') > 0,
                            resOperationId = opIdent op'',
                            resTotalItems = totalItems (opStatus op''),
                            resSuccessCount = successCount (opStatus op''),
                            resFailureCount = failureCount (opStatus op''),
                            bulkResults = opResults op''\<rparr>) op''))"

fun observed :: "'d run \<Rightarrow> 'd BulkOperation" where
  "observed (InFlight op) = op"
| "observed (Settled r op) = op"

fun inFlight :: "'d run \<Rightarrow> bool" where
  "inFlight (InFlight op) = True"
| "inFlight (Settled r op) = False"

text \<open>
  \<^verbatim>\<open>BulkOperationManager\<close>. The operation id (\<^verbatim>\<open>generateOperationId\<close>: clock and random
  number) is a parameter.
\<close>

record 'd BulkOperationManager =
  activeOperations :: "string \<rightharpoonup> 'd BulkOperation"

definition cancelOperation ::
  "'d BulkOperationManager \<Rightarrow> string \<Rightarrow> bool \<times> 'd BulkOperationManager" where
  "cancelOperation m operationId =
     (case activeOperations m operationId of
        Some bulkOp \<Rightarrow>
          (True, m\<lparr>activeOperations := (activeOperations m)(operationId \<mapsto> cancel bulkOp)\<rparr>)
      | None \<Rightarrow> (False, m))"

text \<open>
  \<^verbatim>\<open>executeBulkOperation\<close> in three stages: the operation is registered; \<^verbatim>\<open>execute\<close> runs
  on the registered object and settles (\<open>settledRun\<close> is the manager at that moment, while
  \<^verbatim>\<open>await bulkOp.execute()\<close> has not resumed yet); the \<^verbatim>\<open>finally\<close> block deletes the entry.
\<close>

definition registerOperation ::
  "'d BulkOperationManager \<Rightarrow> string \<Rightarrow> 'd BulkOperationConfig \<Rightarrow> 'd BulkOperationManager" where
  "registerOperation m operationId cfg =
     m\<lparr>activeOperations := (activeOperations m)(operationId \<mapsto> newBulkOperation operationId cfg)\<rparr>"

definition settledRun ::
  "'d BulkOperationManager \<Rightarrow> 'd bulkEnv \<Rightarrow> string \<Rightarrow> 'd BulkOperationConfig \<Rightarrow>
     ((thrown + 'd BulkOperationResult) \<times> 'd BulkOperationManager) option" where
  "settledRun m env operationId cfg =
     (case execute env (newBulkOperation operationId cfg) of
        None \<Rightarrow> None
      | Some (r, bulkOp) \<Rightarrow>
          Some (r, (registerOperation m operationId cfg)
                     \<lparr>activeOperations :=
                        (activeOperations (registerOperation m operationId cfg))(operationId \<mapsto> bulkOp)\<rparr>))"

definition executeBulkOperation ::
  "'d BulkOperationManager \<Rightarrow> 'd bulkEnv \<Rightarrow> string \<Rightarrow> 'd BulkOperationConfig \<Rightarrow>
     ((thrown + 'd BulkOperationResult) \<times> 'd BulkOperationManager) option" where
  "executeBulkOperation m env operationId cfg =
     (case settledRun m env operationId cfg of
        None \<Rightarrow> None
      | Some (r, m') \<Rightarrow>
          Some (r, m'\<lparr>activeOperations := (activeOperations m')(operationId := None)\<rparr>))"

section \<open>Agent registry: AgentFactory\<close>

text \<open>String helpers: \<^verbatim>\<open>startsWith\<close>, \<^verbatim>\<open>includes\<close>, and \<^verbatim>\<open>replace\<close> of the first occurrence.\<close>

definition startsWith :: "string \<Rightarrow> string \<Rightarrow> bool" where
  "startsWith s p \<longleftrightarrow> take (length p) s = p"

fun jsIncludes :: "string \<Rightarrow> string \<Rightarrow> bool" where
  "jsIncludes [] p = (p = [])"
| "jsIncludes (c # s) p = (startsWith (c # s) p \<or> jsIncludes s p)"

fun replaceFirst :: "string \<Rightarrow> string \<Rightarrow> string \<Rightarrow> string" where
  "replaceFirst p r [] = (if p = [] then r else [])"
| "replaceFirst p r (c # s) =
     (if startsWith (c # s) p then r @ drop (length p) (c # s) else c # replaceFirst p r s)"

text \<open>
  An agent object has an identity (\<open>objId\<close>, the number of agent objects constructed before
  it) and may or may not have a \<^verbatim>\<open>destroy\<close> method. \<^verbatim>\<open>AgentInstance\<close> is the wrapper the
  factory caches and returns.
\<close>

record agentObject =
  objId :: nat
  className :: string
  hasDestroy :: bool

record AgentInstance =
  instType :: string
  enhanced :: bool
  instanceObj :: agentObject
  capabilities :: "string list"
  ready :: bool

text \<open>
  What the factory takes from outside: whether \<^verbatim>\<open>window.location.hostname\<close> contains
  \<^verbatim>\<open>squareup.com\<close> (fixed for the life of the page), whether the constructor of an agent
  class throws, and whether \<^verbatim>\<open>SquareDOMUtils\<close>, the base class of the catalog agent, which
  is not among the sources, provides a \<^verbatim>\<open>destroy\<close> method.
\<close>

record factoryEnv =
  onSquareHost :: bool
  constructorThrows :: "string \<Rightarrow> bool"
  catalogHasDestroy :: bool

text \<open>
  Effects of the factory on the world, in order: an agent's \<^verbatim>\<open>destroy()\<close> was invoked; a
  cache key was deleted.
\<close>

datatype factoryEvent = Destroyed nat | Evicted string

text \<open>
  The factory: the \<^verbatim>\<open>agents\<close> map in insertion order, the page type of its context, the
  number of agent objects constructed so far, and the effects so far.
\<close>

record AgentFactory =
  agents :: "(string \<times> AgentInstance) list"
  pageType :: string
  allocated :: nat
  effects :: "factoryEvent list"

definition isValidForSEO :: "string \<Rightarrow> bool" where
  "isValidForSEO p \<longleftrightarrow> p \<in> set [''item-detail'', ''item-edit'', ''items-library'']"

definition isValidForNavigation :: "factoryEnv \<Rightarrow> string \<Rightarrow> bool" where
  "isValidForNavigation env p \<longleftrightarrow> p \<noteq> ''unknown'' \<and> onSquareHost env"

definition isValidForCatalog :: "string \<Rightarrow> bool" where
  "isValidForCatalog p \<longleftrightarrow> p \<in> set [''items-library'', ''item-detail'', ''item-edit'', ''inventory'']"

text \<open>
  \<^verbatim>\<open>createMockAgents\<close> constructs the three mock agents, in the order seo, navigation,
  catalog, and returns them in a map.
\<close>

definition createMockAgents :: "AgentFactory \<Rightarrow> (string \<times> agentObject) list \<times> AgentFactory" where
  "createMockAgents f =
     ([(''seo'', \<lparr>objId = allocated f, className = ''MockSEOAgent'', hasDestroy = True\<rparr>),
       (''navigation'', \<lparr>objId = allocated f + 1, className = ''MockNavigationAgent'', hasDestroy = True\<rparr>),
       (''catalog'', \<lparr>objId = allocated f + 2, className = ''MockCatalogAgent'', hasDestroy = True\<rparr>)],
      f\<lparr>allocated := allocated f + 3\<rparr>)"

definition createMockAgent :: "string \<Rightarrow> AgentFactory \<Rightarrow> AgentInstance option \<times> AgentFactory" where
  "createMockAgent ty f =
     (let (mockAgents, f') = createMockAgents f;
          mockType = replaceFirst ''mock-'' [] ty
      in case map_of mockAgents mockType of
           None \<Rightarrow> (None, f')
         | Some mockAgent \<Rightarrow>
             (Some \<lparr>instType = ty, enhanced = False, instanceObj = mockAgent,
                    capabilities = [''Mock '' @ mockType @ '' operations for testing''],
                    ready = True\<rparr>, f'))"

text \<open>\<open>new C(context)\<close> for an agent class: it throws, or a new object is constructed.\<close>

definition construct ::
  "factoryEnv \<Rightarrow> string \<Rightarrow> bool \<Rightarrow> AgentFactory \<Rightarrow> (thrown + agentObject) \<times> AgentFactory" where
  "construct env cls destroyable f =
     (if constructorThrows env cls then (Inl (JsError (cls @ '' constructor failed'')), f)
      else (Inr \<lparr>objId = allocated f, className = cls, hasDestroy = destroyable\<rparr>,
            f\<lparr>allocated := allocated f + 1\<rparr>))"

definition createAgent ::
  "factoryEnv \<Rightarrow> string \<Rightarrow> AgentFactory \<Rightarrow> (thrown + AgentInstance option) \<times> AgentFactory" where
  "createAgent env ty f =
     (if ty = ''seo'' then
        if \<not> isValidForSEO (pageType f) then
          (Inl (JsError (''SEO agent not available for page type: '' @ pageType f)), f)
        else (case construct env ''SquareSEOAgentEnhanced'' True f of
                (Inl e, f') \<Rightarrow> (Inl e, f')
              | (Inr obj, f') \<Rightarrow>
                  (Inr (Some \<lparr>instType = ty, enhanced = True, instanceObj = obj,
                     capabilities = [''Real DOM SEO optimization'', ''Form validation and submission'',
                       ''Content generation and optimization'', ''Bulk SEO operations'',
                       ''Screenshot capture for debugging''],
                     ready = True\<rparr>), f'))
      else if ty = ''navigation'' then
        if \<not> isValidForNavigation env (pageType f) then
          (Inl (JsError (''Navigation agent not available for page type: '' @ pageType f)), f)
        else (case construct env ''SquareNavigationAgentEnhanced'' True f of
                (Inl e, f') \<Rightarrow> (Inl e, f')
              | (Inr obj, f') \<Rightarrow>
                  (Inr (Some \<lparr>instType = ty, enhanced = True, instanceObj = obj,
                     capabilities = [''Advanced page navigation'', ''URL management and validation'',
                       ''Search functionality with filters'', ''Page load validation'',
                       ''SPA routing handling''],
                     ready = True\<rparr>), f'))
      else if ty = ''catalog'' then
        if \<not> isValidForCatalog (pageType f) then
          (Inl (JsError (''Catalog agent not available for page type: '' @ pageType f)), f)
        else (case construct env ''SquareCatalogAgentEnhanced'' (catalogHasDestroy env) f of
                (Inl e, f') \<Rightarrow> (Inl e, f')
              | (Inr obj, f') \<Rightarrow>
                  (Inr (Some \<lparr>instType = ty, enhanced = True, instanceObj = obj,
                     capabilities = [''Comprehensive catalog synchronization'',
                       ''Inventory management and updates'', ''Bulk pricing operations'',
                       ''Data extraction and validation'', ''Batch processing capabilities''],
                     ready = True\<rparr>), f'))
      else if ty = ''mock-seo'' \<or> ty = ''mock-navigation'' \<or> ty = ''mock-catalog'' then
        (case createMockAgent ty f of (r, f') \<Rightarrow> (Inr r, f'))
      else (Inl (JsError (''Unknown agent type: '' @ ty)), f))"

definition cacheKey :: "string \<Rightarrow> string \<Rightarrow> string" where
  "cacheKey ty page = ty @ ''-'' @ page"

text \<open>
  \<^verbatim>\<open>getAgent(type, forceRecreate)\<close>. \<open>cachedReady\<close> is its first statement: the cached
  instance, when recreation is not forced and the instance is ready. The fallback call
  passes no second argument, so it does not force. It is the only recursive call, made
  for a type that does not start with \<^verbatim>\<open>mock-\<close> on a type that does.
\<close>

definition cachedReady :: "AgentFactory \<Rightarrow> string \<Rightarrow> bool \<Rightarrow> AgentInstance option" where
  "cachedReady f key forceRecreate =
     (if \<not> forceRecreate then
        (case map_of (agents f) key of
           Some cached \<Rightarrow> if ready cached then Some cached else None
         | None \<Rightarrow> None)
      else None)"

function getAgent ::
  "factoryEnv \<Rightarrow> string \<Rightarrow> bool \<Rightarrow> AgentFactory \<Rightarrow> AgentInstance option \<times> AgentFactory" where
  "getAgent env ty forceRecreate f =
     (case cachedReady f (cacheKey ty (pageType f)) forceRecreate of
        Some cached \<Rightarrow> (Some cached, f)
      | None \<Rightarrow>
          (case createAgent env ty f of
             (Inr (Some agentInstance), f') \<Rightarrow>
               (Some agentInstance,
                f'\<lparr>agents := AList.update (cacheKey ty (pageType f')) agentInstance (agents f')\<rparr>)
           | (_, f') \<Rightarrow>
               if \<not> startsWith ty ''mock-'' then getAgent env (''mock-'' @ ty) False f'
               else (None, f')))"
  by pat_completeness auto
termination
  by (relation "measure (\<lambda>(env, ty, force, f). if startsWith ty ''mock-'' then 0 else 1)")
     (auto simp: startsWith_def)

declare getAgent.simps [simp del]

text \<open>
  \<^verbatim>\<open>AgentFactory.getInstance(context)\<close> replaces the context of the singleton; the exported
  \<^verbatim>\<open>getAgent(type, context)\<close> does that and then resolves the type.
\<close>

definition getInstance :: "string \<Rightarrow> AgentFactory \<Rightarrow> AgentFactory" where
  "getInstance page f = f\<lparr>pageType := page\<rparr>"

definition getAgentWithContext ::
  "factoryEnv \<Rightarrow> string \<Rightarrow> string \<Rightarrow> AgentFactory \<Rightarrow> AgentInstance option \<times> AgentFactory" where
  "getAgentWithContext env ty page f = getAgent env ty False (getInstance page f)"

definition newFactory :: "string \<Rightarrow> AgentFactory" where
  "newFactory page = \<lparr>agents = [], pageType = page, allocated = 0, effects = []\<rparr>"

text \<open>
  The body of the loop of \<^verbatim>\<open>updateContext\<close> for one entry of the map, and the loop over
  the entries as they were when it started (deleting the current key does not disturb the
  iteration).
\<close>

definition evictStale :: "string \<Rightarrow> string \<times> AgentInstance \<Rightarrow> AgentFactory \<Rightarrow> AgentFactory" where
  "evictStale currentPageType entry f =
     (if \<not> jsIncludes (fst entry) currentPageType then
        (let f1 = (if hasDestroy (instanceObj (snd entry))
                   then f\<lparr>effects := effects f @ [Destroyed (objId (instanceObj (snd entry)))]\<rparr>
                   else f)
         in f1\<lparr>agents := AList.delete (fst entry) (agents f1),
               effects := effects f1 @ [Evicted (fst entry)]\<rparr>)
      else f)"

definition updateContext :: "string \<Rightarrow> AgentFactory \<Rightarrow> AgentFactory" where
  "updateContext newPage f =
     fold (evictStale newPage) (agents f) (f\<lparr>pageType := newPage\<rparr>)"

text \<open>The values of the \<^verbatim>\<open>AgentType\<close> and \<^verbatim>\<open>pageType\<close> unions.\<close>

definition agentTypes :: "string list" where
  "agentTypes = [''seo'', ''navigation'', ''catalog'', ''mock-seo'', ''mock-navigation'', ''mock-catalog'']"

definition pageTypes :: "string list" where
  "pageTypes = [''dashboard'', ''items-library'', ''item-detail'', ''item-edit'', ''inventory'',
                ''seo-settings'', ''unknown'']"


definition dispatchesOk :: "'d coordinator \<Rightarrow> nat \<Rightarrow> 'd WorkflowStep list \<Rightarrow> bool" where
  "dispatchesOk c n ss \<longleftrightarrow>
     (\<forall>k < length ss. \<exists>r. dispatchStep c (n + k) (ss ! k) = Fulfilled r \<and>
         (critical (ss ! k) \<longrightarrow> success r))"

definition inOrder :: "'d coordinator \<Rightarrow> nat \<Rightarrow> 'd WorkflowStep list \<Rightarrow> 'd AgentResult list \<Rightarrow> bool" where
  "inOrder c n ss rs \<longleftrightarrow>
     length rs \<le> length ss \<and> (\<forall>k < length rs. dispatchStep c (n + k) (ss ! k) = Fulfilled (rs ! k))"

definition failRes :: "nat AgentResult" where
  "failRes = \<lparr>success = False, message = None, error = Some ''failed'', data = None\<rparr>"

definition failingCoordinator :: "nat coordinator" where
  "failingCoordinator = \<lparr>hasAgent = (\<lambda>key. True), callAgent = (\<lambda>k key method arg. Fulfilled failRes)\<rparr>"

definition stepA :: "nat WorkflowStep" where
  "stepA = \<lparr>agentType = ''navigation'', operation = ''navigate'', stepData = 0, dependsOn = None, critical = True\<rparr>"

definition stepB :: "nat WorkflowStep" where
  "stepB = \<lparr>agentType = ''navigation'', operation = ''search'', stepData = 1, dependsOn = Some [''navigate''], critical = False\<rparr>"

definition stepN :: "nat WorkflowStep" where
  "stepN = \<lparr>agentType = ''catalog'', operation = ''extract'', stepData = 2, dependsOn = None, critical = False\<rparr>"

definition stepC :: "nat WorkflowStep" where
  "stepC = \<lparr>agentType = ''seo'', operation = ''optimize'', stepData = 3, dependsOn = None, critical = False\<rparr>"

definition afterA :: "nat wfState" where
  "afterA = record_result stepA failRes (note_dispatch stepA initialWf)"

definition recorded :: "'d settled \<times> 'd \<Rightarrow> 'd AgentResult" where
  "recorded x =
     (case fst x of
        Fulfilled v \<Rightarrow> if success v then v else itemFailure (jsString (error v)) (snd x)
      | Rejected reason \<Rightarrow> itemFailure (errorText reason) (snd x))"

fun snapshots :: "'d event list \<Rightarrow> BulkOperationStatus list" where
  "snapshots [] = []"
| "snapshots (Suspended s # es) = s # snapshots es"
| "snapshots (Progress s # es) = s # snapshots es"
| "snapshots (_ # es) = snapshots es"

datatype mark = Start nat | End nat

fun batchMarks :: "'d event list \<Rightarrow> mark list" where
  "batchMarks [] = []"
| "batchMarks (Launched k batch # es) = Start k # batchMarks es"
| "batchMarks (Joined k outcomes # es) = End k # batchMarks es"
| "batchMarks (_ # es) = batchMarks es"

fun launchedBatches :: "'d event list \<Rightarrow> 'd list list" where
  "launchedBatches [] = []"
| "launchedBatches (Launched k batch # es) = batch # launchedBatches es"
| "launchedBatches (_ # es) = launchedBatches es"

definition tally :: "'d BulkOperation \<Rightarrow> 'd settled \<times> 'd \<Rightarrow> 'd BulkOperation" where
  "tally op x =
     op\<lparr>opStatus := (opStatus op)
          \<lparr>processedItems := processedItems (opStatus op) + 1,
           successCount := successCount (opStatus op) + (if success (recorded x) then 1 else 0),
           failureCount := failureCount (opStatus op) + (if success (recorded x) then 0 else 1)\<rparr>,
        opResults := opResults op @ [recorded x]\<rparr>"

definition countsOk :: "'d BulkOperation \<Rightarrow> bool" where
  "countsOk op \<longleftrightarrow>
     successCount (opStatus op) + failureCount (opStatus op) = processedItems (opStatus op) \<and>
     successCount (opStatus op) = length (filter success (opResults op)) \<and>
     length (opResults op) = processedItems (opStatus op) \<and>
     totalItems (opStatus op) = length (items (config op))"

definition snapOk :: "BulkOperationStatus \<Rightarrow> bool" where
  "snapOk s \<longleftrightarrow>
     successCount s + failureCount s = processedItems s \<and> processedItems s \<le> totalItems s"

definition outcomesOf :: "'d bulkEnv \<Rightarrow> 'd BulkOperation \<Rightarrow> 'd list \<Rightarrow> 'd settled list" where
  "outcomesOf env op batch =
     map (\<lambda>(j, item). processItem env (config op) (processedItems (opStatus op) + j) item)
       (enumerate 0 batch)"

text \<open>How far the loop has got: the relation of the loop index to the number of items tallied.\<close>

definition covered :: "int \<Rightarrow> int \<Rightarrow> nat \<Rightarrow> nat \<Rightarrow> bool" where
  "covered b i n p \<longleftrightarrow>
     (0 \<le> b \<and> 0 \<le> i \<and> int p = min i (int n)) \<or> (b < 0 \<and> i = 0 \<and> p = 0) \<or> (b < 0 \<and> i < 0 \<and> p \<le> n)"

definition batchOrder :: "nat \<Rightarrow> mark list" where
  "batchOrder m = concat (map (\<lambda>j. [Start j, End j]) [0..<m])"

definition chunk :: "nat \<Rightarrow> 'a list \<Rightarrow> nat \<Rightarrow> 'a list" where
  "chunk B xs j = take B (drop (j * B) xs)"

definition okResult :: "nat AgentResult" where
  "okResult = \<lparr>success = True, message = Some ''done'', error = None, data = None\<rparr>"

definition evenEnv :: "nat bulkEnv" where
  "evenEnv = \<lparr>agentFor = (\<lambda>key. key = ''catalog''),
              invoke = (\<lambda>n method item. if even item then Fulfilled okResult else Rejected (JsError ''boom'')),
              cancelDuring = (\<lambda>k. False)\<rparr>"

definition twelve :: "nat BulkOperationConfig" where
  "twelve = \<lparr>bulkType = ''catalog-bulk-sync'', bulkAgentType = ''catalog'',
             items = [0, 1, 2, 3, 4, 5, 6, 7, 8, 9, 10, 11], batchSize = Some 5,
             delayBetweenBatches = None, onProgress = Some (\<lambda>s. None)\<rparr>"

definition batchCount :: "nat \<Rightarrow> nat \<Rightarrow> nat" where
  "batchCount n b = (n + b - 1) div b"


definition okCoordinator :: "nat coordinator" where
  "okCoordinator = \<lparr>hasAgent = (\<lambda>key. True), callAgent = (\<lambda>k key method arg. Fulfilled okResult)\<rparr>"

definition zeroBatch :: "nat BulkOperationConfig" where
  "zeroBatch = twelve\<lparr>batchSize := Some 0\<rparr>"


definition cancelEnv :: "nat bulkEnv" where
  "cancelEnv = \<lparr>agentFor = (\<lambda>key. key = ''catalog''),
                invoke = (\<lambda>n method item. Fulfilled okResult),
                cancelDuring = (\<lambda>k. k = 0)\<rparr>"

definition throwing :: "nat BulkOperationConfig" where
  "throwing = \<lparr>bulkType = ''catalog-bulk-sync'', bulkAgentType = ''catalog'',
               items = [0, 1], batchSize = None, delayBetweenBatches = None,
               onProgress = Some (\<lambda>s. Some (JsError ''progress handler failed''))\<rparr>"

definition single :: "nat BulkOperationConfig" where
  "single = \<lparr>bulkType = ''catalog-bulk-sync'', bulkAgentType = ''catalog'',
             items = [0], batchSize = None, delayBetweenBatches = None, onProgress = None\<rparr>"

definition emptyManager :: "nat BulkOperationManager" where
  "emptyManager = \<lparr>activeOperations = Map.empty\<rparr>"

definition failedOp :: "nat BulkOperation" where
  "failedOp =
     \<lparr>opIdent = ''bulk-op-3'', config = throwing,
      opStatus = \<lparr>opId = ''bulk-op-3'', opType = ''catalog-bulk-sync'', totalItems = 2,
                  processedItems = 1, successCount = 1, failureCount = 0, status = Failed\<rparr>,
      cancelled = False, opResults = [okResult],
      trace = [Launched 0 [0, 1],
               Suspended \<lparr>opId = ''bulk-op-3'', opType = ''catalog-bulk-sync'', totalItems = 2,
                  processedItems = 0, successCount = 0, failureCount = 0, status = Running\<rparr>,
               Joined 0 [Fulfilled okResult, Fulfilled okResult],
               Progress \<lparr>opId = ''bulk-op-3'', opType = ''catalog-bulk-sync'', totalItems = 2,
                  processedItems = 1, successCount = 1, failureCount = 0, status = Running\<rparr>]\<rparr>"

definition finishedOp :: "nat BulkOperation" where
  "finishedOp =
     \<lparr>opIdent = ''bulk-op-9'', config = single,
      opStatus = \<lparr>opId = ''bulk-op-9'', opType = ''catalog-bulk-sync'', totalItems = 1,
                  processedItems = 1, successCount = 1, failureCount = 0, status = Completed\<rparr>,
      cancelled = False, opResults = [okResult],
      trace = [Launched 0 [0],
               Suspended \<lparr>opId = ''bulk-op-9'', opType = ''catalog-bulk-sync'', totalItems = 1,
                  processedItems = 0, successCount = 0, failureCount = 0, status = Running\<rparr>,
               Joined 0 [Fulfilled okResult]]\<rparr>"

definition finishedResult :: "nat BulkOperationResult" where
  "finishedResult =
     \<lparr>bulkSuccess = True, resOperationId = ''bulk-op-9'', resTotalItems = 1, resSuccessCount = 1,
      resFailureCount = 0, bulkResults = [okResult]\<rparr>"

definition settledManager :: "nat BulkOperationManager" where
  "settledManager = \<lparr>activeOperations = [''bulk-op-9'' \<mapsto> finishedOp]\<rparr>"

definition bulkSeoCoordinator :: "nat coordinator" where
  "bulkSeoCoordinator =
     \<lparr>hasAgent = (\<lambda>key. True),
      callAgent = (\<lambda>k key method arg.
         if method = ''extractCatalogData'' then Fulfilled okResult
         else Rejected (JsError ''seoAgent.bulkUpdateSEO is not a function''))\<rparr>"

definition bulkSeoWorkflow :: "nat Workflow" where
  "bulkSeoWorkflow =
     \<lparr>name = ''Bulk SEO Update'',
      steps = [\<lparr>agentType = ''catalog'', operation = ''extract'', stepData = 10,
                 dependsOn = None, critical = False\<rparr>,
               \<lparr>agentType = ''seo'', operation = ''bulk-update'', stepData = 0,
                 dependsOn = None, critical = False\<rparr>]\<rparr>"



definition negative :: "nat BulkOperationConfig" where
  "negative = \<lparr>bulkType = ''catalog-bulk-sync'', bulkAgentType = ''catalog'',
               items = [0, 1, 2], batchSize = Some (- 1), delayBetweenBatches = None,
               onProgress = None\<rparr>"

definition fours :: "nat BulkOperationConfig" where
  "fours = twelve\<lparr>batchSize := Some 4\<rparr>"

definition quietEnv :: "nat bulkEnv" where
  "quietEnv = \<lparr>agentFor = (\<lambda>key. key = ''catalog''),
               invoke = (\<lambda>n method item. Fulfilled okResult),
               cancelDuring = (\<lambda>k. False)\<rparr>"


definition creatable :: "factoryEnv \<Rightarrow> string \<Rightarrow> string \<Rightarrow> bool" where
  "creatable env ty page \<longleftrightarrow>
     (ty = ''seo'' \<and> isValidForSEO page \<and> \<not> constructorThrows env ''SquareSEOAgentEnhanced'') \<or>
     (ty = ''navigation'' \<and> isValidForNavigation env page \<and>
        \<not> constructorThrows env ''SquareNavigationAgentEnhanced'') \<or>
     (ty = ''catalog'' \<and> isValidForCatalog page \<and> \<not> constructorThrows env ''SquareCatalogAgentEnhanced'') \<or>
     ty = ''mock-seo'' \<or> ty = ''mock-navigation'' \<or> ty = ''mock-catalog''"

definition evictionEvents :: "string \<times> AgentInstance \<Rightarrow> factoryEvent list" where
  "evictionEvents entry =
     (if hasDestroy (instanceObj (snd entry)) then [Destroyed (objId (instanceObj (snd entry)))] else [])
     @ [Evicted (fst entry)]"

definition squareEnv :: factoryEnv where
  "squareEnv = \<lparr>onSquareHost = True, constructorThrows = (\<lambda>cls. False), catalogHasDestroy = False\<rparr>"

definition firstSeo :: AgentInstance where
  "firstSeo =
     \<lparr>instType = ''seo'', enhanced = True,
      instanceObj = \<lparr>objId = 0, className = ''SquareSEOAgentEnhanced'', hasDestroy = True\<rparr>,
      capabilities = [''Real DOM SEO optimization'', ''Form validation and submission'',
        ''Content generation and optimization'', ''Bulk SEO operations'',
        ''Screenshot capture for debugging''],
      ready = True\<rparr>"

definition detailFactory :: AgentFactory where
  "detailFactory = snd (getAgent squareEnv ''seo'' False (newFactory ''item-detail''))"

definition staleFactory :: AgentFactory where
  "staleFactory = snd (getAgentWithContext squareEnv ''seo'' ''items-library'' detailFactory)"

lemma workflowLoop_append:
  "workflowLoop c \<sigma> (pre @ rest) =
     (case workflowLoop c \<sigma> pre of
        (Finished, \<sigma>') \<Rightarrow> workflowLoop c \<sigma>' rest
      | other \<Rightarrow> other)"
  by (induction pre arbitrary: \<sigma>) (auto simp: Let_def split: settled.splits)

lemma results_record_result [simp]: "results (record_result step r \<sigma>) = results \<sigma> @ [r]"
  by (simp add: record_result_def)

lemma dispatched_record_result [simp]: "dispatched (record_result step r \<sigma>) = dispatched \<sigma>"
  by (simp add: record_result_def)

lemma results_note_dispatch [simp]: "results (note_dispatch step \<sigma>) = results \<sigma>"
  by (simp add: note_dispatch_def)

lemma stepResults_note_dispatch [simp]: "stepResults (note_dispatch step \<sigma>) = stepResults \<sigma>"
  by (simp add: note_dispatch_def)

lemma dispatched_note_dispatch [simp]: "dispatched (note_dispatch step \<sigma>) = dispatched \<sigma> @ [step]"
  by (simp add: note_dispatch_def)

lemma blocked_note_dispatch [simp]: "blocked (note_dispatch s \<sigma>) step = blocked \<sigma> step"
  by (simp add: blocked_def dependenciesMet_def split: option.splits)

lemma blocked_iff:
  "blocked \<sigma> step \<longleftrightarrow>
     (\<exists>deps. dependsOn step = Some deps \<and>
        (\<exists>dep \<in> set deps. case stepResults \<sigma> dep of None \<Rightarrow> True | Some r \<Rightarrow> \<not> success r))"
  by (auto simp: blocked_def dependenciesMet_def list_all_iff split: option.splits)

text \<open>The loop stops early only at a critical step whose recorded result is a failure.\<close>

lemma stopped_only_critical_failure:
  "workflowLoop c \<sigma> ss = (Stopped, \<sigma>') \<Longrightarrow>
     \<exists>pre step rest. ss = pre @ step # rest \<and> critical step \<and> results \<sigma>' \<noteq> [] \<and>
        \<not> success (last (results \<sigma>')) \<and> length (results \<sigma>') = length (results \<sigma>) + length pre + 1"
proof (induction ss arbitrary: \<sigma>)
  case Nil
  then show ?case by simp
next
  case (Cons s ss)
  show ?case
  proof (cases "blocked \<sigma> s")
    case True
    show ?thesis
    proof (cases "critical s")
      case c: True
      with True Cons.prems have "\<sigma>' = record_result s (failedResult s) \<sigma>" by simp
      with c show ?thesis
        by (intro exI[of _ "[]"] exI[of _ s] exI[of _ ss]) (simp add: failedResult_def)
    next
      case c: False
      with True Cons.prems have "workflowLoop c (record_result s (failedResult s) \<sigma>) ss = (Stopped, \<sigma>')"
        by simp
      from Cons.IH[OF this] obtain pre step rest where
        "ss = pre @ step # rest" "critical step" "results \<sigma>' \<noteq> []" "\<not> success (last (results \<sigma>'))"
        "length (results \<sigma>') = length (results (record_result s (failedResult s) \<sigma>)) + length pre + 1"
        by blast
      then show ?thesis
        by (intro exI[of _ "s # pre"] exI[of _ step] exI[of _ rest]) simp
    qed
  next
    case False
    show ?thesis
    proof (cases "dispatchStep c (length (results \<sigma>)) s")
      case (Rejected e)
      with False Cons.prems show ?thesis by simp
    next
      case (Fulfilled r)
      show ?thesis
      proof (cases "\<not> success r \<and> critical s")
        case True
        with False Fulfilled Cons.prems have "\<sigma>' = record_result s r (note_dispatch s \<sigma>)" by simp
        with True show ?thesis
          by (intro exI[of _ "[]"] exI[of _ s] exI[of _ ss]) simp
      next
        case nb: False
        with False Fulfilled Cons.prems
        have "workflowLoop c (record_result s r (note_dispatch s \<sigma>)) ss = (Stopped, \<sigma>')"
          by auto
        from Cons.IH[OF this] obtain pre step rest where
          "ss = pre @ step # rest" "critical step" "results \<sigma>' \<noteq> []" "\<not> success (last (results \<sigma>'))"
          "length (results \<sigma>') = length (results (record_result s r (note_dispatch s \<sigma>))) + length pre + 1"
          by blast
        then show ?thesis
          by (intro exI[of _ "s # pre"] exI[of _ step] exI[of _ rest]) simp
      qed
    qed
  qed
qed

lemma finished_all_attempted:
  "workflowLoop c \<sigma> ss = (Finished, \<sigma>') \<Longrightarrow> length (results \<sigma>') = length (results \<sigma>) + length ss"
proof (induction ss arbitrary: \<sigma>)
  case Nil
  then show ?case by simp
next
  case (Cons s ss)
  then show ?case
    by (auto simp: Let_def split: if_splits settled.splits)
qed

lemma not_blocked_no_edges:
  "dependsOn step = None \<or> dependsOn step = Some [] \<Longrightarrow> \<not> blocked \<sigma> step"
  by (auto simp: blocked_def dependenciesMet_def)

lemma dispatchesOk_Cons:
  "dispatchesOk c n (s # ss) \<longleftrightarrow>
     (\<exists>r. dispatchStep c n s = Fulfilled r \<and> (critical s \<longrightarrow> success r)) \<and> dispatchesOk c (Suc n) ss"
  unfolding dispatchesOk_def
proof (intro iffI conjI allI impI)
  assume h: "\<forall>k<length (s # ss). \<exists>r. dispatchStep c (n + k) ((s # ss) ! k) = Fulfilled r \<and> (critical ((s # ss) ! k) \<longrightarrow> success r)"
  from h[rule_format, of 0] show "\<exists>r. dispatchStep c n s = Fulfilled r \<and> (critical s \<longrightarrow> success r)" by simp
  fix k assume "k < length ss"
  with h[rule_format, of "Suc k"]
  show "\<exists>r. dispatchStep c (Suc n + k) (ss ! k) = Fulfilled r \<and> (critical (ss ! k) \<longrightarrow> success r)" by simp
next
  fix k
  assume h: "(\<exists>r. dispatchStep c n s = Fulfilled r \<and> (critical s \<longrightarrow> success r)) \<and>
     (\<forall>k<length ss. \<exists>r. dispatchStep c (Suc n + k) (ss ! k) = Fulfilled r \<and> (critical (ss ! k) \<longrightarrow> success r))"
    and k: "k < length (s # ss)"
  show "\<exists>r. dispatchStep c (n + k) ((s # ss) ! k) = Fulfilled r \<and> (critical ((s # ss) ! k) \<longrightarrow> success r)"
  proof (cases k)
    case 0
    with h show ?thesis by simp
  next
    case (Suc j)
    with k have "j < length ss" by simp
    with h have "\<exists>r. dispatchStep c (Suc n + j) (ss ! j) = Fulfilled r \<and> (critical (ss ! j) \<longrightarrow> success r)"
      by blast
    with Suc show ?thesis by simp
  qed
qed

lemma inOrder_Nil: "inOrder c n ss []"
  by (simp add: inOrder_def)

lemma inOrder_Cons:
  "dispatchStep c n s = Fulfilled r \<Longrightarrow> inOrder c (Suc n) ss rs \<Longrightarrow> inOrder c n (s # ss) (r # rs)"
  unfolding inOrder_def
proof (intro conjI allI impI)
  assume a: "dispatchStep c n s = Fulfilled r"
    and b: "length rs \<le> length ss \<and> (\<forall>k<length rs. dispatchStep c (Suc n + k) (ss ! k) = Fulfilled (rs ! k))"
  show "length (r # rs) \<le> length (s # ss)" using b by simp
  fix k assume "k < length (r # rs)"
  then show "dispatchStep c (n + k) ((s # ss) ! k) = Fulfilled ((r # rs) ! k)"
    using a b by (cases k) auto
qed

lemma no_edges_prefix:
  assumes "\<forall>s \<in> set ss. dependsOn s = None \<or> dependsOn s = Some []"
  shows "\<exists>rs. results (snd (workflowLoop c \<sigma> ss)) = results \<sigma> @ rs \<and>
           inOrder c (length (results \<sigma>)) ss rs \<and>
           (dispatchesOk c (length (results \<sigma>)) ss \<longrightarrow> length rs = length ss)"
  using assms
proof (induction ss arbitrary: \<sigma>)
  case Nil
  then show ?case by (simp add: inOrder_def)
next
  case (Cons s ss)
  have nb: "\<not> blocked \<sigma> s" using Cons.prems by (simp add: not_blocked_no_edges)
  show ?case
  proof (cases "dispatchStep c (length (results \<sigma>)) s")
    case (Rejected e)
    with nb have "results (snd (workflowLoop c \<sigma> (s # ss))) = results \<sigma> @ []" by simp
    moreover have "\<not> dispatchesOk c (length (results \<sigma>)) (s # ss)"
      using Rejected by (simp add: dispatchesOk_Cons)
    ultimately show ?thesis using inOrder_Nil by blast
  next
    case (Fulfilled r)
    let ?\<sigma>' = "record_result s r (note_dispatch s \<sigma>)"
    show ?thesis
    proof (cases "\<not> success r \<and> critical s")
      case True
      with nb Fulfilled have "results (snd (workflowLoop c \<sigma> (s # ss))) = results \<sigma> @ [r]" by simp
      moreover have "\<not> dispatchesOk c (length (results \<sigma>)) (s # ss)"
        using Fulfilled True by (simp add: dispatchesOk_Cons)
      moreover have "inOrder c (length (results \<sigma>)) (s # ss) [r]"
        using Fulfilled by (simp add: inOrder_Cons inOrder_Nil)
      ultimately show ?thesis by blast
    next
      case False
      with nb Fulfilled have eq: "workflowLoop c \<sigma> (s # ss) = workflowLoop c ?\<sigma>' ss" by auto
      from Cons.prems have "\<forall>s \<in> set ss. dependsOn s = None \<or> dependsOn s = Some []" by simp
      from Cons.IH[OF this, of ?\<sigma>'] obtain rs where
        rs: "results (snd (workflowLoop c ?\<sigma>' ss)) = results ?\<sigma>' @ rs"
          "inOrder c (length (results ?\<sigma>')) ss rs"
          "dispatchesOk c (length (results ?\<sigma>')) ss \<longrightarrow> length rs = length ss"
        by blast
      have a: "results (snd (workflowLoop c \<sigma> (s # ss))) = results \<sigma> @ (r # rs)"
        unfolding eq using rs(1) by simp
      have b: "inOrder c (length (results \<sigma>)) (s # ss) (r # rs)"
        using rs(2) Fulfilled by (simp add: inOrder_Cons)
      have c: "dispatchesOk c (length (results \<sigma>)) (s # ss) \<longrightarrow> length (r # rs) = length (s # ss)"
        using rs(3) by (simp add: dispatchesOk_Cons)
      from a b c show ?thesis by blast
    qed
  qed
qed

text \<open>Claim C9 (declaration order). For a workflow without \<open>dependsOn\<close> edges
  the results are the results of dispatching a prefix of the steps, in the order of
  declaration; there is one result for every step when every dispatch returns and no critical
  step fails.\<close>
theorem C9_results_follow_declaration_order:
  assumes "\<forall>s \<in> set (steps (w :: 'd Workflow)). dependsOn s = None \<or> dependsOn s = Some []"
  shows "length (wfResults (executeEnhancedWorkflow c w)) \<le> length (steps w) \<and>
         (\<forall>k < length (wfResults (executeEnhancedWorkflow c w)).
            dispatchStep c k (steps w ! k) = Fulfilled (wfResults (executeEnhancedWorkflow c w) ! k)) \<and>
         ((\<forall>k < length (steps w). \<exists>r. dispatchStep c k (steps w ! k) = Fulfilled r \<and>
              (critical (steps w ! k) \<longrightarrow> success r)) \<longrightarrow>
          length (wfResults (executeEnhancedWorkflow c w)) = length (steps w))"
proof -
  have r: "wfResults (executeEnhancedWorkflow c w) = results (snd (workflowLoop c initialWf (steps w)))"
    by (simp add: executeEnhancedWorkflow_def Let_def split: prod.splits loopExit.splits)
  have z: "results (initialWf :: 'd wfState) = []" by (simp add: initialWf_def)
  from no_edges_prefix[OF assms, of c initialWf] show ?thesis
    unfolding r z inOrder_def dispatchesOk_def by auto
qed

lemmas wf_eval = executeEnhancedWorkflow_def dispatchedSteps_def initialWf_def blocked_def
  dependenciesMet_def dispatchStep_def executeSEOOperation_def executeNavigationOperation_def
  executeCatalogOperation_def record_result_def note_dispatch_def failedResult_def failure_def Let_def

text \<open>Claim C2 (critical short circuit). At a dispatched step whose result is a failure:
  if the step is critical the loop stops there, with the step as the last one dispatched and
  its result as the last one recorded; if it is not critical the loop goes on with the rest
  of the steps. The loop stops early only at a critical step whose recorded result is a
  failure, and a loop that runs to its end has recorded one result for every step. For the
  workflow of a critical failing step followed by one more step, the results are the single
  failed result, only the first step is dispatched, and the run reports failure.\<close>
theorem C2_short_circuit:
  assumes "\<not> blocked \<sigma> step"
    and "dispatchStep c (length (results \<sigma>)) step = Fulfilled r"
    and "\<not> success r"
  shows "(critical step \<longrightarrow>
            workflowLoop c \<sigma> (step # rest) = (Stopped, record_result step r (note_dispatch step \<sigma>)) \<and>
            dispatched (snd (workflowLoop c \<sigma> (step # rest))) = dispatched \<sigma> @ [step] \<and>
            results (snd (workflowLoop c \<sigma> (step # rest))) = results \<sigma> @ [r])
       \<and> (\<not> critical step \<longrightarrow>
            workflowLoop c \<sigma> (step # rest) =
              workflowLoop c (record_result step r (note_dispatch step \<sigma>)) rest)
       \<and> (\<forall>\<sigma>'. workflowLoop c \<sigma> (step # rest) = (Stopped, \<sigma>') \<longrightarrow>
            (\<exists>pre s post. step # rest = pre @ s # post \<and> critical s \<and> results \<sigma>' \<noteq> [] \<and>
               \<not> success (last (results \<sigma>')) \<and>
               length (results \<sigma>') = length (results \<sigma>) + length pre + 1))
       \<and> (\<forall>\<sigma>'. workflowLoop c \<sigma> (step # rest) = (Finished, \<sigma>') \<longrightarrow>
            length (results \<sigma>') = length (results \<sigma>) + length (step # rest))
       \<and> (critical step \<and> \<sigma> = initialWf \<longrightarrow>
            wfResults (executeEnhancedWorkflow c \<lparr>name = n, steps = [step, stepB']\<rparr>) = [r] \<and>
            \<not> wfSuccess (executeEnhancedWorkflow c \<lparr>name = n, steps = [step, stepB']\<rparr>) \<and>
            dispatchedSteps c \<lparr>name = n, steps = [step, stepB']\<rparr> = [step])"
proof (intro conjI impI allI)
  assume "critical step"
  with assms show "workflowLoop c \<sigma> (step # rest) = (Stopped, record_result step r (note_dispatch step \<sigma>))"
    by simp
  then show "dispatched (snd (workflowLoop c \<sigma> (step # rest))) = dispatched \<sigma> @ [step]"
    and "results (snd (workflowLoop c \<sigma> (step # rest))) = results \<sigma> @ [r]"
    by simp_all
next
  assume "\<not> critical step"
  with assms show "workflowLoop c \<sigma> (step # rest) =
      workflowLoop c (record_result step r (note_dispatch step \<sigma>)) rest"
    by simp
next
  fix \<sigma>' assume "workflowLoop c \<sigma> (step # rest) = (Stopped, \<sigma>')"
  then show "\<exists>pre s post. step # rest = pre @ s # post \<and> critical s \<and> results \<sigma>' \<noteq> [] \<and>
               \<not> success (last (results \<sigma>')) \<and>
               length (results \<sigma>') = length (results \<sigma>) + length pre + 1"
    by (rule stopped_only_critical_failure)
next
  fix \<sigma>' assume "workflowLoop c \<sigma> (step # rest) = (Finished, \<sigma>')"
  then show "length (results \<sigma>') = length (results \<sigma>) + length (step # rest)"
    by (rule finished_all_attempted)
next
  assume h: "critical step \<and> \<sigma> = initialWf"
  with assms have l: "workflowLoop c initialWf [step, stepB'] =
      (Stopped, record_result step r (note_dispatch step initialWf))"
    by simp
  show "wfResults (executeEnhancedWorkflow c \<lparr>name = n, steps = [step, stepB']\<rparr>) = [r]"
    using assms(3) by (simp add: executeEnhancedWorkflow_def l del: workflowLoop.simps) (simp add: initialWf_def)
  show "\<not> wfSuccess (executeEnhancedWorkflow c \<lparr>name = n, steps = [step, stepB']\<rparr>)"
    using assms(3) by (simp add: executeEnhancedWorkflow_def l del: workflowLoop.simps) (simp add: initialWf_def)
  show "dispatchedSteps c \<lparr>name = n, steps = [step, stepB']\<rparr> = [step]"
    by (simp add: dispatchedSteps_def l del: workflowLoop.simps) (simp add: initialWf_def)
qed

text \<open>Instance of C2: the workflow \<open>[stepA, stepB]\<close> with \<open>stepA\<close>
  critical and failing, and \<open>stepB\<close> depending on it.\<close>
theorem C2_witness:
  "\<not> blocked initialWf stepA \<and> dispatchStep failingCoordinator 0 stepA = Fulfilled failRes \<and>
   \<not> success failRes \<and> critical stepA \<and>
   wfResults (executeEnhancedWorkflow failingCoordinator \<lparr>name = ''w'', steps = [stepA, stepB]\<rparr>) = [failRes] \<and>
   \<not> wfSuccess (executeEnhancedWorkflow failingCoordinator \<lparr>name = ''w'', steps = [stepA, stepB]\<rparr>) \<and>
   dispatchedSteps failingCoordinator \<lparr>name = ''w'', steps = [stepA, stepB]\<rparr> = [stepA]"
proof -
  have a: "\<not> blocked initialWf stepA" by (simp add: blocked_def stepA_def)
  have b: "dispatchStep failingCoordinator (length (results (initialWf :: nat wfState))) stepA = Fulfilled failRes"
    by (simp add: dispatchStep_def executeNavigationOperation_def failingCoordinator_def stepA_def)
  have c: "\<not> success failRes" by (simp add: failRes_def)
  have d: "critical stepA" by (simp add: stepA_def)
  from C2_short_circuit[OF a b c, of "[stepB]" "''w''" stepB] a b c d show ?thesis
    by (simp add: initialWf_def)
qed

text \<open>Claim C3 (dependency gate). At a step that declares \<open>dependsOn\<close> and
  has a dependency with no recorded result or with an unsuccessful one, the step is not
  dispatched: a failed result is recorded for it (in the results list and under its operation
  name), and the loop stops there if the step is critical and goes on with the next step
  otherwise.\<close>
theorem C3_unmet_dependency_gate:
  assumes "dependsOn step = Some deps"
    and "\<exists>dep \<in> set deps. stepResults \<sigma> dep = None \<or> (\<exists>r. stepResults \<sigma> dep = Some r \<and> \<not> success r)"
  shows "workflowLoop c \<sigma> (step # rest) =
           (if critical step then (Stopped, record_result step (failedResult step) \<sigma>)
            else workflowLoop c (record_result step (failedResult step) \<sigma>) rest)
         \<and> results (record_result step (failedResult step) \<sigma>) = results \<sigma> @ [failedResult step]
         \<and> stepResults (record_result step (failedResult step) \<sigma>) (operation step) = Some (failedResult step)
         \<and> dispatched (record_result step (failedResult step) \<sigma>) = dispatched \<sigma>
         \<and> \<not> success (failedResult step)"
proof -
  from assms(2) obtain dep where "dep \<in> set deps"
    "stepResults \<sigma> dep = None \<or> (\<exists>r. stepResults \<sigma> dep = Some r \<and> \<not> success r)" by blast
  then have "\<exists>dep \<in> set deps. case stepResults \<sigma> dep of None \<Rightarrow> True | Some r \<Rightarrow> \<not> success r"
    by (auto intro!: bexI[of _ dep])
  with assms(1) have "blocked \<sigma> step"
    unfolding blocked_iff by blast
  then show ?thesis
    by (simp add: Let_def) (simp add: record_result_def failedResult_def)
qed

text \<open>Instance of C3: \<open>stepB\<close> after the failure of \<open>stepA\<close>, as a
  non-critical and as a critical step.\<close>
theorem C3_witness:
  "dependsOn stepB = Some [''navigate''] \<and> stepResults afterA ''navigate'' = Some failRes \<and> \<not> success failRes \<and>
   workflowLoop failingCoordinator afterA [stepB, stepC] =
     workflowLoop failingCoordinator (record_result stepB (failedResult stepB) afterA) [stepC] \<and>
   dispatched (snd (workflowLoop failingCoordinator afterA [stepB])) = [stepA] \<and>
   workflowLoop failingCoordinator afterA [stepB\<lparr>critical := True\<rparr>, stepC] =
     (Stopped, record_result (stepB\<lparr>critical := True\<rparr>) (failedResult (stepB\<lparr>critical := True\<rparr>)) afterA)"
proof -
  have a: "dependsOn stepB = Some [''navigate'']" by (simp add: stepB_def)
  have a': "dependsOn (stepB\<lparr>critical := True\<rparr>) = Some [''navigate'']" by (simp add: stepB_def)
  have s: "stepResults afterA ''navigate'' = Some failRes"
    by (simp add: afterA_def record_result_def stepA_def)
  have f: "\<not> success failRes" by (simp add: failRes_def)
  have b: "\<exists>dep \<in> set [''navigate'']. stepResults afterA dep = None \<or> (\<exists>r. stepResults afterA dep = Some r \<and> \<not> success r)"
    using s f by simp
  have nc: "\<not> critical stepB" by (simp add: stepB_def)
  have d: "dispatched afterA = [stepA]" by (simp add: afterA_def initialWf_def)
  show ?thesis
    using C3_unmet_dependency_gate[OF a b, of failingCoordinator "[stepC]"]
      C3_unmet_dependency_gate[OF a b, of failingCoordinator "[]"]
      C3_unmet_dependency_gate[OF a' b, of failingCoordinator "[stepC]"]
      a s f nc d
    by (simp del: workflowLoop.simps) (simp)
qed

text \<open>A workflow without dependencies whose first, critical step fails returns
  one result for two steps.\<close>
theorem C9_counterexample:
  "dependsOn stepA = None \<and> dependsOn stepC = None \<and>
   length (wfResults (executeEnhancedWorkflow failingCoordinator \<lparr>name = ''w'', steps = [stepA, stepC]\<rparr>)) = 1 \<and>
   length (steps \<lparr>name = ''w'', steps = [stepA, stepC]\<rparr>) = 2"
  by (simp add: wf_eval failingCoordinator_def stepA_def stepC_def failRes_def)

lemma snapshots_append [simp]: "snapshots (xs @ ys) = snapshots xs @ snapshots ys"
  by (induction xs rule: snapshots.induct) simp_all

lemma batchMarks_append [simp]: "batchMarks (xs @ ys) = batchMarks xs @ batchMarks ys"
  by (induction xs rule: batchMarks.induct) simp_all

lemma launchedBatches_append [simp]: "launchedBatches (xs @ ys) = launchedBatches xs @ launchedBatches ys"
  by (induction xs rule: launchedBatches.induct) simp_all

text \<open>One rule for every property of the batch loop.\<close>

lemma batchLoop_rule:
  assumes run: "batchLoop env b k i op = Some (e, op')"
    and init: "I k i op"
    and step: "\<And>k i op op1. I k i op \<Longrightarrow> i < int (length (items (config op))) \<Longrightarrow> \<not> cancelled op \<Longrightarrow>
        processBatch env k (jsSlice (items (config op)) i (i + b)) op = (None, op1) \<Longrightarrow>
        I (Suc k) (i + b) (betweenBatches env b k i op1)"
    and fin: "\<And>k i op. I k i op \<Longrightarrow> \<not> i < int (length (items (config op))) \<Longrightarrow> Q None op"
    and halt: "\<And>k i op. I k i op \<Longrightarrow> i < int (length (items (config op))) \<Longrightarrow> cancelled op \<Longrightarrow>
        Q None (setStatus Cancelled op)"
    and err: "\<And>k i op x op1. I k i op \<Longrightarrow> i < int (length (items (config op))) \<Longrightarrow> \<not> cancelled op \<Longrightarrow>
        processBatch env k (jsSlice (items (config op)) i (i + b)) op = (Some x, op1) \<Longrightarrow> Q (Some x) op1"
  shows "Q e op'"
proof -
  have main: "env0 = env \<longrightarrow> b0 = b \<longrightarrow> I k i op \<longrightarrow> Q (fst y) (snd y)"
    if "batchLoop env0 b0 k i op = Some y" for env0 b0 k i op y
    using that
  proof (induct env0 b0 k i op y rule: batchLoop.raw_induct[rotated 1, consumes 1, case_names 1])
    case (1 loop env0 b0 k i op y)
    show ?case
    proof (intro impI)
      assume eq: "env0 = env" "b0 = b" and inv: "I k i op"
      show "Q (fst y) (snd y)"
      proof (cases "i < int (length (items (config op)))")
        case False
        with 1(2) have "y = (None, op)" by simp
        with fin[OF inv False] show ?thesis by simp
      next
        case True
        show ?thesis
        proof (cases "cancelled op")
          case c: True
          with True 1(2) have "y = (None, setStatus Cancelled op)" by simp
          with halt[OF inv True c] show ?thesis by simp
        next
          case c: False
          obtain x op1 where pb: "processBatch env k (jsSlice (items (config op)) i (i + b)) op = (x, op1)"
            by (cases "processBatch env k (jsSlice (items (config op)) i (i + b)) op") auto
          show ?thesis
          proof (cases x)
            case None
            with True c pb eq 1(2)
            have nxt: "loop env b (Suc k) (i + b) (betweenBatches env b k i op1) = Some y" by simp
            have "I (Suc k) (i + b) (betweenBatches env b k i op1)"
              using step[OF inv True c] pb None by simp
            with 1(1)[OF nxt] show ?thesis by simp
          next
            case (Some t)
            with True c pb eq 1(2) have "y = (Some t, op1)" by simp
            with err[OF inv True c pb[unfolded Some]] show ?thesis by simp
          qed
        qed
      qed
    qed
  qed
  from main[OF run] init show ?thesis by simp
qed

lemmas bulk_upd = setStatus_def logEvents_def cancel_def countSuccess_def countFailure_def getStatus_def

lemma success_itemFailure [simp]: "\<not> success (itemFailure msg item)"
  by (simp add: itemFailure_def)

lemma settleItem_eq:
  "settleItem op x =
     (case onProgress (config op) of
        None \<Rightarrow> (None, tally op x)
      | Some callback \<Rightarrow>
          (callback (opStatus (tally op x)), logEvents [Progress (opStatus (tally op x))] (tally op x)))"
proof (cases "fst x")
  case (Fulfilled v)
  then show ?thesis
    by (cases "success v")
       (simp_all add: settleItem_def tally_def recorded_def bulk_upd Let_def split: option.splits)
next
  case (Rejected reason)
  then show ?thesis
    by (simp add: settleItem_def tally_def recorded_def bulk_upd Let_def split: option.splits)
qed

lemma tally_fields [simp]:
  "config (tally op x) = config op" "cancelled (tally op x) = cancelled op"
  "opIdent (tally op x) = opIdent op" "trace (tally op x) = trace op"
  "opResults (tally op x) = opResults op @ [recorded x]"
  "processedItems (opStatus (tally op x)) = Suc (processedItems (opStatus op))"
  "totalItems (opStatus (tally op x)) = totalItems (opStatus op)"
  "status (opStatus (tally op x)) = status (opStatus op)"
  by (simp_all add: tally_def)

lemma countsOk_tally: "countsOk op \<Longrightarrow> countsOk (tally op x)"
  by (simp add: countsOk_def tally_def)

lemma logEvents_fields [simp]:
  "config (logEvents es op) = config op" "cancelled (logEvents es op) = cancelled op"
  "opIdent (logEvents es op) = opIdent op" "trace (logEvents es op) = trace op @ es"
  "opResults (logEvents es op) = opResults op" "opStatus (logEvents es op) = opStatus op"
  by (simp_all add: logEvents_def)

lemma countsOk_logEvents [simp]: "countsOk (logEvents es op) = countsOk op"
  by (simp add: countsOk_def)

lemma settleItem_cases:
  assumes "settleItem op x = (e, op')"
  obtains (quiet) "onProgress (config op) = None" "e = None" "op' = tally op x"
    | (called) cb where "onProgress (config op) = Some cb" "e = cb (opStatus (tally op x))"
        "op' = logEvents [Progress (opStatus (tally op x))] (tally op x)"
  using assms by (auto simp: settleItem_eq split: option.splits)

lemma settleItem_frame:
  assumes "settleItem op x = (e, op')"
  shows "config op' = config op" "cancelled op' = cancelled op" "opIdent op' = opIdent op"
    "totalItems (opStatus op') = totalItems (opStatus op)"
    "status (opStatus op') = status (opStatus op)"
    "processedItems (opStatus op') = Suc (processedItems (opStatus op))"
    "opResults op' = opResults op @ [recorded x]"
    "batchMarks (trace op') = batchMarks (trace op)"
    "launchedBatches (trace op') = launchedBatches (trace op)"
  using assms by (cases rule: settleItem_cases; simp)+

lemma settleItem_countsOk:
  assumes "settleItem op x = (e, op')" "countsOk op"
  shows "countsOk op'"
  using assms by (cases rule: settleItem_cases) (simp_all add: countsOk_tally)

lemma settleItem_thrown:
  assumes "settleItem op x = (Some t, op')"
  shows "\<exists>cb s. onProgress (config op) = Some cb \<and> cb s = Some t"
  using assms by (cases rule: settleItem_cases) auto

lemma settleItem_quiet:
  assumes "\<forall>cb s. onProgress (config op) = Some cb \<longrightarrow> cb s = None"
  shows "fst (settleItem op x) = None"
  using assms by (simp add: settleItem_eq split: option.splits)

lemma settleItem_snapshots:
  assumes "settleItem op x = (e, op')" "countsOk op"
    "processedItems (opStatus op) < totalItems (opStatus op)"
    "\<forall>s \<in> set (snapshots (trace op)). snapOk s"
  shows "\<forall>s \<in> set (snapshots (trace op')). snapOk s"
proof -
  have "snapOk (opStatus (tally op x))"
    using countsOk_tally[OF assms(2), of x] assms(3) by (simp add: snapOk_def countsOk_def)
  with assms(1,4) show ?thesis
    by (cases rule: settleItem_cases) auto
qed

lemma forEachResult_Cons_cases:
  assumes "forEachResult op (x # xs) = (e, op')"
  obtains (threw) t where "settleItem op x = (Some t, op')" "e = Some t"
    | (went_on) op1 where "settleItem op x = (None, op1)" "forEachResult op1 xs = (e, op')"
  using assms by (auto split: prod.splits option.splits)

lemma forEachResult_frame:
  "forEachResult op xs = (e, op') \<Longrightarrow>
     config op' = config op \<and> cancelled op' = cancelled op \<and> opIdent op' = opIdent op \<and>
     totalItems (opStatus op') = totalItems (opStatus op) \<and>
     status (opStatus op') = status (opStatus op) \<and>
     batchMarks (trace op') = batchMarks (trace op) \<and>
     launchedBatches (trace op') = launchedBatches (trace op)"
proof (induction xs arbitrary: op)
  case Nil
  then show ?case by simp
next
  case (Cons x xs)
  from Cons.prems show ?case
  proof (cases rule: forEachResult_Cons_cases)
    case (threw t)
    then show ?thesis using settleItem_frame[OF threw(1)] by simp
  next
    case (went_on op1)
    from Cons.IH[OF went_on(2)] settleItem_frame[OF went_on(1)] show ?thesis by simp
  qed
qed

lemma forEachResult_countsOk:
  "forEachResult op xs = (e, op') \<Longrightarrow> countsOk op \<Longrightarrow> countsOk op'"
proof (induction xs arbitrary: op)
  case Nil
  then show ?case by simp
next
  case (Cons x xs)
  from Cons.prems(1) show ?case
  proof (cases rule: forEachResult_Cons_cases)
    case (threw t)
    then show ?thesis using settleItem_countsOk[OF threw(1) Cons.prems(2)] by simp
  next
    case (went_on op1)
    from Cons.IH[OF went_on(2) settleItem_countsOk[OF went_on(1) Cons.prems(2)]] show ?thesis .
  qed
qed

lemma forEachResult_thrown:
  "forEachResult op xs = (Some t, op') \<Longrightarrow> \<exists>cb s. onProgress (config op) = Some cb \<and> cb s = Some t"
proof (induction xs arbitrary: op)
  case Nil
  then show ?case by simp
next
  case (Cons x xs)
  from Cons.prems show ?case
  proof (cases rule: forEachResult_Cons_cases)
    case (threw u)
    then show ?thesis using settleItem_thrown[of op x u op'] by simp
  next
    case (went_on op1)
    from Cons.IH[OF went_on(2)] settleItem_frame(1)[OF went_on(1)] show ?thesis by simp
  qed
qed

lemma forEachResult_tallied:
  "forEachResult op xs = (e, op') \<Longrightarrow>
     \<exists>m \<le> length xs. (e = None \<longrightarrow> m = length xs) \<and>
        processedItems (opStatus op') = processedItems (opStatus op) + m \<and>
        opResults op' = opResults op @ map recorded (take m xs)"
proof (induction xs arbitrary: op)
  case Nil
  then show ?case by simp
next
  case (Cons x xs)
  from Cons.prems show ?case
  proof (cases rule: forEachResult_Cons_cases)
    case (threw t)
    have "Suc 0 \<le> length (x # xs)" by simp
    moreover have "e = None \<longrightarrow> Suc 0 = length (x # xs)" using threw(2) by simp
    moreover have "processedItems (opStatus op') = processedItems (opStatus op) + Suc 0"
      using settleItem_frame(6)[OF threw(1)] by simp
    moreover have "opResults op' = opResults op @ map recorded (take (Suc 0) (x # xs))"
      using settleItem_frame(7)[OF threw(1)] by simp
    ultimately show ?thesis by blast
  next
    case (went_on op1)
    from Cons.IH[OF went_on(2)] obtain m where m: "m \<le> length xs" "e = None \<longrightarrow> m = length xs"
      "processedItems (opStatus op') = processedItems (opStatus op1) + m"
      "opResults op' = opResults op1 @ map recorded (take m xs)" by blast
    have "Suc m \<le> length (x # xs)" using m(1) by simp
    moreover have "e = None \<longrightarrow> Suc m = length (x # xs)" using m(2) by simp
    moreover have "processedItems (opStatus op') = processedItems (opStatus op) + Suc m"
      using m(3) settleItem_frame(6)[OF went_on(1)] by simp
    moreover have "opResults op' = opResults op @ map recorded (take (Suc m) (x # xs))"
      using m(4) settleItem_frame(7)[OF went_on(1)] by simp
    ultimately show ?thesis by blast
  qed
qed

lemma forEachResult_quiet:
  "\<forall>cb s. onProgress (config op) = Some cb \<longrightarrow> cb s = None \<Longrightarrow> fst (forEachResult op xs) = None"
proof (induction xs arbitrary: op)
  case Nil
  then show ?case by simp
next
  case (Cons x xs)
  obtain e1 op1 where s1: "settleItem op x = (e1, op1)" by (cases "settleItem op x") auto
  with settleItem_quiet[OF Cons.prems, of x] have e1: "e1 = None" by simp
  have "\<forall>cb s. onProgress (config op1) = Some cb \<longrightarrow> cb s = None"
    using Cons.prems settleItem_frame(1)[OF s1] by simp
  from Cons.IH[OF this] s1 e1 show ?case by simp
qed

lemma forEachResult_snapshots:
  "forEachResult op xs = (e, op') \<Longrightarrow> countsOk op \<Longrightarrow>
   processedItems (opStatus op) + length xs \<le> totalItems (opStatus op) \<Longrightarrow>
   \<forall>s \<in> set (snapshots (trace op)). snapOk s \<Longrightarrow>
   \<forall>s \<in> set (snapshots (trace op')). snapOk s"
proof (induction xs arbitrary: op)
  case Nil
  then show ?case by simp
next
  case (Cons x xs)
  have lt: "processedItems (opStatus op) < totalItems (opStatus op)" using Cons.prems(3) by simp
  from Cons.prems(1) show ?case
  proof (cases rule: forEachResult_Cons_cases)
    case (threw t)
    from settleItem_snapshots[OF threw(1) Cons.prems(2) lt Cons.prems(4)] show ?thesis .
  next
    case (went_on op1)
    have a: "countsOk op1" using settleItem_countsOk[OF went_on(1) Cons.prems(2)] .
    have b: "processedItems (opStatus op1) + length xs \<le> totalItems (opStatus op1)"
      using settleItem_frame(4,6)[OF went_on(1)] Cons.prems(3) by simp
    have c: "\<forall>s \<in> set (snapshots (trace op1)). snapOk s"
      using settleItem_snapshots[OF went_on(1) Cons.prems(2) lt Cons.prems(4)] .
    from Cons.IH[OF went_on(2) a b c] show ?thesis .
  qed
qed

lemma length_outcomesOf [simp]: "length (outcomesOf env op batch) = length batch"
  by (simp add: outcomesOf_def)


lemma processBatch_eq:
  "processBatch env k batch op =
     forEachResult (logEvents [Launched k batch, Suspended (opStatus op), Joined k (outcomesOf env op batch)] op)
       (zip (outcomesOf env op batch) batch)"
  by (simp add: processBatch_def outcomesOf_def getStatus_def Let_def)

lemma processBatch_frame:
  assumes "processBatch env k batch op = (e, op')"
  shows "config op' = config op" "cancelled op' = cancelled op" "opIdent op' = opIdent op"
    "totalItems (opStatus op') = totalItems (opStatus op)"
    "status (opStatus op') = status (opStatus op)"
    "batchMarks (trace op') = batchMarks (trace op) @ [Start k, End k]"
    "launchedBatches (trace op') = launchedBatches (trace op) @ [batch]"
  using forEachResult_frame[OF assms[unfolded processBatch_eq]] by simp_all

lemma processBatch_countsOk:
  assumes "processBatch env k batch op = (e, op')" "countsOk op"
  shows "countsOk op'"
  using forEachResult_countsOk[OF assms(1)[unfolded processBatch_eq]] assms(2) by simp

lemma processBatch_thrown:
  assumes "processBatch env k batch op = (Some t, op')"
  shows "\<exists>cb s. onProgress (config op) = Some cb \<and> cb s = Some t"
  using forEachResult_thrown[OF assms[unfolded processBatch_eq]] by simp

lemma processBatch_quiet:
  assumes "\<forall>cb s. onProgress (config op) = Some cb \<longrightarrow> cb s = None"
  shows "fst (processBatch env k batch op) = None"
  unfolding processBatch_eq using assms by (intro forEachResult_quiet) simp

lemma processBatch_tallied:
  assumes "processBatch env k batch op = (e, op')"
  shows "\<exists>m \<le> length batch. (e = None \<longrightarrow> m = length batch) \<and>
        processedItems (opStatus op') = processedItems (opStatus op) + m \<and>
        opResults op' = opResults op @ map recorded (take m (zip (outcomesOf env op batch) batch))"
  using forEachResult_tallied[OF assms[unfolded processBatch_eq]] by simp

lemma processBatch_snapshots:
  assumes "processBatch env k batch op = (e, op')" "countsOk op"
    "processedItems (opStatus op) + length batch \<le> totalItems (opStatus op)"
    "\<forall>s \<in> set (snapshots (trace op)). snapOk s"
  shows "\<forall>s \<in> set (snapshots (trace op')). snapOk s"
proof -
  have "snapOk (opStatus op)" using assms(2,3) by (simp add: snapOk_def countsOk_def)
  with assms(4) have "\<forall>s \<in> set (snapshots (trace (logEvents [Launched k batch, Suspended (opStatus op),
      Joined k (outcomesOf env op batch)] op))). snapOk s" by simp
  with forEachResult_snapshots[OF assms(1)[unfolded processBatch_eq]] assms(2,3) show ?thesis by simp
qed

lemma betweenBatches_fields [simp]:
  "config (betweenBatches env b k i op) = config op"
  "opStatus (betweenBatches env b k i op) = opStatus op"
  "opResults (betweenBatches env b k i op) = opResults op"
  "opIdent (betweenBatches env b k i op) = opIdent op"
  "cancelled (betweenBatches env b k i op) = (cancelled op \<or> cancelDuring env k)"
  "batchMarks (trace (betweenBatches env b k i op)) = batchMarks (trace op)"
  "launchedBatches (trace (betweenBatches env b k i op)) = launchedBatches (trace op)"
  by (simp_all add: betweenBatches_def bulk_upd Let_def split: option.splits)

lemma betweenBatches_snapshots:
  "set (snapshots (trace (betweenBatches env b k i op))) \<subseteq> insert (opStatus op) (set (snapshots (trace op)))"
  by (auto simp: betweenBatches_def bulk_upd Let_def split: option.splits)

lemma countsOk_betweenBatches [simp]: "countsOk (betweenBatches env b k i op) = countsOk op"
  by (simp add: countsOk_def)

lemma setStatus_fields [simp]:
  "config (setStatus st op) = config op" "cancelled (setStatus st op) = cancelled op"
  "opIdent (setStatus st op) = opIdent op" "trace (setStatus st op) = trace op"
  "opResults (setStatus st op) = opResults op"
  "status (opStatus (setStatus st op)) = st"
  "totalItems (opStatus (setStatus st op)) = totalItems (opStatus op)"
  "processedItems (opStatus (setStatus st op)) = processedItems (opStatus op)"
  "successCount (opStatus (setStatus st op)) = successCount (opStatus op)"
  "failureCount (opStatus (setStatus st op)) = failureCount (opStatus op)"
  by (simp_all add: setStatus_def)

lemma countsOk_setStatus [simp]: "countsOk (setStatus st op) = countsOk op"
  by (simp add: countsOk_def)

lemma snapOk_setStatus [simp]: "snapOk (opStatus (setStatus st op)) = snapOk (opStatus op)"
  by (simp add: snapOk_def)

lemma length_jsSlice:
  "length (jsSlice xs s e) =
     (let n = int (length xs);
          from = (if s < 0 then max (n + s) 0 else min s n);
          to = (if e < 0 then max (n + e) 0 else min e n)
      in nat (to - from))"
  by (auto simp: jsSlice_def Let_def)

lemma covered_step:
  assumes "covered b i (length xs) p" "i < int (length xs)"
  shows "p + length (jsSlice xs i (i + b)) \<le> length xs"
    and "covered b (i + b) (length xs) (p + length (jsSlice xs i (i + b)))"
  using assms unfolding covered_def length_jsSlice Let_def by (auto simp: min_def max_def)

lemma covered_bound: "covered b i n p \<Longrightarrow> p \<le> n"
  by (auto simp: covered_def)

lemma covered_exit: "covered b i n p \<Longrightarrow> \<not> i < int n \<Longrightarrow> p = n"
  by (auto simp: covered_def)

lemma batchLoop_sound:
  assumes run: "batchLoop env b k i op = Some (e, op')"
    and c0: "countsOk op"
    and s0: "\<forall>s \<in> set (snapshots (trace op)). snapOk s"
    and v0: "covered b i (length (items (config op))) (processedItems (opStatus op))"
  shows "config op' = config op \<and> opIdent op' = opIdent op \<and> countsOk op' \<and>
         (\<forall>s \<in> set (snapshots (trace op')). snapOk s) \<and> snapOk (opStatus op') \<and>
         (e = None \<and> \<not> cancelled op' \<longrightarrow>
            processedItems (opStatus op') = length (items (config op))) \<and>
         (\<forall>t. e = Some t \<longrightarrow> (\<exists>cb s. onProgress (config op) = Some cb \<and> cb s = Some t))"
    (is "?Q e op'")
proof -
  let ?n = "length (items (config op))"
  let ?I = "\<lambda>(k::nat) i o'. config o' = config op \<and> opIdent o' = opIdent op \<and> countsOk o' \<and>
              (\<forall>s \<in> set (snapshots (trace o')). snapOk s) \<and>
              covered b i ?n (processedItems (opStatus o'))"
  have ok: "snapOk (opStatus o')" if "countsOk o'" "processedItems (opStatus o') \<le> ?n" "config o' = config op" for o'
    using that by (simp add: snapOk_def countsOk_def)
  show ?thesis
  proof (rule batchLoop_rule[where I = ?I and Q = ?Q, OF run])
    show "?I k i op" using c0 s0 v0 by simp
  next
    fix k i o' o1
    assume inv: "?I k i o'" and lt: "i < int (length (items (config o')))" and nc: "\<not> cancelled o'"
      and pb: "processBatch env k (jsSlice (items (config o')) i (i + b)) o' = (None, o1)"
    let ?batch = "jsSlice (items (config op)) i (i + b)"
    from inv have cfg: "config o' = config op" by simp
    from pb cfg have pb': "processBatch env k ?batch o' = (None, o1)" by simp
    from inv lt cfg have bound: "processedItems (opStatus o') + length ?batch \<le> ?n"
      and nxt: "covered b (i + b) ?n (processedItems (opStatus o') + length ?batch)"
      using covered_step[of b i "items (config op)" "processedItems (opStatus o')"] by simp_all
    from inv have tot: "totalItems (opStatus o') = ?n" by (simp add: countsOk_def)
    from processBatch_tallied[OF pb'] have p1: "processedItems (opStatus o1) = processedItems (opStatus o') + length ?batch"
      by auto
    have c1: "countsOk o1" using processBatch_countsOk[OF pb'] inv by simp
    have s1: "\<forall>s \<in> set (snapshots (trace o1)). snapOk s"
      using processBatch_snapshots[OF pb'] inv bound tot by simp
    have k1: "snapOk (opStatus o1)" using ok[OF c1] p1 bound processBatch_frame(1)[OF pb'] cfg by simp
    have "\<forall>s \<in> set (snapshots (trace (betweenBatches env b k i o1))). snapOk s"
      using betweenBatches_snapshots[of env b k i o1] s1 k1 by auto
    then show "?I (Suc k) (i + b) (betweenBatches env b k i o1)"
      using processBatch_frame(1,3)[OF pb'] inv c1 nxt p1 by simp
  next
    fix k i o'
    assume inv: "?I k i o'" and ge: "\<not> i < int (length (items (config o')))"
    from inv ge have "processedItems (opStatus o') = ?n"
      using covered_exit[of b i ?n "processedItems (opStatus o')"] by simp
    with inv show "?Q None o'" using ok[of o'] by simp
  next
    fix k i o'
    assume inv: "?I k i o'" and "cancelled o'"
    from inv have "processedItems (opStatus o') \<le> ?n" using covered_bound by blast
    with inv \<open>cancelled o'\<close> show "?Q None (setStatus Cancelled o')" using ok[of o'] by simp
  next
    fix k i o' x o1
    assume inv: "?I k i o'" and lt: "i < int (length (items (config o')))"
      and pb: "processBatch env k (jsSlice (items (config o')) i (i + b)) o' = (Some x, o1)"
    let ?batch = "jsSlice (items (config op)) i (i + b)"
    from inv have cfg: "config o' = config op" by simp
    from pb cfg have pb': "processBatch env k ?batch o' = (Some x, o1)" by simp
    from inv lt cfg have bound: "processedItems (opStatus o') + length ?batch \<le> ?n"
      using covered_step(1)[of b i "items (config op)" "processedItems (opStatus o')"] by simp
    from inv have tot: "totalItems (opStatus o') = ?n" by (simp add: countsOk_def)
    from processBatch_tallied[OF pb'] obtain m where m: "m \<le> length ?batch"
      "processedItems (opStatus o1) = processedItems (opStatus o') + m" by auto
    have c1: "countsOk o1" using processBatch_countsOk[OF pb'] inv by simp
    have s1: "\<forall>s \<in> set (snapshots (trace o1)). snapOk s"
      using processBatch_snapshots[OF pb'] inv bound tot by simp
    have k1: "snapOk (opStatus o1)" using ok[OF c1] m bound processBatch_frame(1)[OF pb'] cfg by simp
    from processBatch_thrown[OF pb'] cfg
    have "\<exists>cb s. onProgress (config op) = Some cb \<and> cb s = Some x" by simp
    with processBatch_frame(1,3)[OF pb'] inv c1 s1 k1 show "?Q (Some x) o1" by simp
  qed
qed

lemma execute_cases:
  assumes "execute env op0 = Some (r, op)"
  obtains (failed) t op' where
      "batchLoop env (effectiveBatchSize (config op0)) 0 0 (setStatus Running op0) = Some (Some t, op')"
      "r = Inl t" "op = setStatus Failed op'"
    | (returned) op' where
      "batchLoop env (effectiveBatchSize (config op0)) 0 0 (setStatus Running op0) = Some (None, op')"
      "op = setStatus (if cancelled op' then Cancelled else Completed) op'"
      "r = Inr \<lparr>bulkSuccess = successCount (opStatus op) > 0, resOperationId = opIdent op,
                resTotalItems = totalItems (opStatus op), resSuccessCount = successCount (opStatus op),
                resFailureCount = failureCount (opStatus op), bulkResults = opResults op\<rparr>"
  using assms by (auto simp: execute_def Let_def split: option.splits prod.splits)

lemma newBulkOperation_fields [simp]:
  "config (newBulkOperation ident cfg) = cfg" "opIdent (newBulkOperation ident cfg) = ident"
  "cancelled (newBulkOperation ident cfg) = False" "trace (newBulkOperation ident cfg) = []"
  "opResults (newBulkOperation ident cfg) = []"
  "processedItems (opStatus (newBulkOperation ident cfg)) = 0"
  "totalItems (opStatus (newBulkOperation ident cfg)) = length (items cfg)"
  "status (opStatus (newBulkOperation ident cfg)) = Pending"
  by (simp_all add: newBulkOperation_def)

lemma countsOk_new [simp]: "countsOk (newBulkOperation ident cfg)"
  by (simp add: countsOk_def newBulkOperation_def)

lemma covered_start [simp]: "covered b 0 n 0"
  by (auto simp: covered_def)

lemma run_sound:
  assumes "execute env (newBulkOperation ident cfg) = Some (r, op)"
  shows "config op = cfg \<and> opIdent op = ident \<and> countsOk op \<and>
         (\<forall>s \<in> set (snapshots (trace op)). snapOk s) \<and> snapOk (opStatus op) \<and>
         (status (opStatus op) = Completed \<longrightarrow> processedItems (opStatus op) = length (items cfg)) \<and>
         (\<forall>t. r = Inl t \<longrightarrow> status (opStatus op) = Failed \<and>
              (\<exists>cb s. onProgress cfg = Some cb \<and> cb s = Some t)) \<and>
         (\<forall>res. r = Inr res \<longrightarrow> (status (opStatus op) = Completed \<or> status (opStatus op) = Cancelled) \<and>
              (status (opStatus op) = Cancelled \<longleftrightarrow> cancelled op) \<and>
              res = \<lparr>bulkSuccess = successCount (opStatus op) > 0, resOperationId = opIdent op,
                resTotalItems = totalItems (opStatus op), resSuccessCount = successCount (opStatus op),
                resFailureCount = failureCount (opStatus op), bulkResults = opResults op\<rparr>)"
  using assms
proof (cases rule: execute_cases)
  case (failed t op')
  from batchLoop_sound[OF failed(1)] failed(2,3) show ?thesis by simp
next
  case (returned op')
  from batchLoop_sound[OF returned(1)] returned(2,3) show ?thesis by simp
qed

lemma batchLoop_terminates:
  assumes "0 < b"
  shows "\<exists>y. batchLoop env b k i op = Some y"
proof (induction "nat (int (length (items (config op))) - i)" arbitrary: k i op rule: less_induct)
  case less
  show ?case
  proof (cases "i < int (length (items (config op)))")
    case False
    then show ?thesis by (simp add: batchLoop.simps)
  next
    case True
    show ?thesis
    proof (cases "cancelled op")
      case c: True
      with True show ?thesis by (simp add: batchLoop.simps)
    next
      case c: False
      obtain x op1 where pb: "processBatch env k (jsSlice (items (config op)) i (i + b)) op = (x, op1)"
        by (cases "processBatch env k (jsSlice (items (config op)) i (i + b)) op") auto
      show ?thesis
      proof (cases x)
        case (Some t)
        with True c pb show ?thesis by (subst batchLoop.simps) simp
      next
        case None
        let ?op2 = "betweenBatches env b k i op1"
        have cfg: "config ?op2 = config op" using processBatch_frame(1)[OF pb] by simp
        have "nat (int (length (items (config ?op2))) - (i + b)) < nat (int (length (items (config op))) - i)"
          using assms True cfg by simp
        from less[OF this] obtain y where "batchLoop env b (Suc k) (i + b) ?op2 = Some y" by blast
        with True c pb None show ?thesis by (subst batchLoop.simps) simp
      qed
    qed
  qed
qed

lemma effectiveBatchSize_pos:
  "batchSize cfg = None \<or> (\<exists>x. batchSize cfg = Some x \<and> 0 \<le> x) \<Longrightarrow> 0 < effectiveBatchSize cfg"
  by (auto simp: effectiveBatchSize_def)

lemma execute_terminates:
  assumes "0 < effectiveBatchSize (config op0)"
  shows "\<exists>r op. execute env op0 = Some (r, op)"
proof -
  from batchLoop_terminates[OF assms] obtain e op' where
    "batchLoop env (effectiveBatchSize (config op0)) 0 0 (setStatus Running op0) = Some (e, op')"
    by (metis surj_pair)
  then show ?thesis by (cases e) (simp_all add: execute_def Let_def)
qed

text \<open>A run in which nobody cancels and no progress callback throws.\<close>

lemma batchLoop_undisturbed:
  assumes run: "batchLoop env b k i (op :: 'd BulkOperation) = Some (e, op')"
    and nc: "\<forall>j. \<not> cancelDuring env j" "\<not> cancelled op"
    and quiet: "\<forall>cb s. onProgress (config op) = Some cb \<longrightarrow> cb s = None"
  shows "e = None \<and> \<not> cancelled op'"
proof (rule batchLoop_rule[where I = "\<lambda>k i (o' :: 'd BulkOperation). config o' = config op \<and> \<not> cancelled o'"
      and Q = "\<lambda>e (o' :: 'd BulkOperation). e = None \<and> \<not> cancelled o'", OF run])
  show "config op = config op \<and> \<not> cancelled op" using nc by simp
next
  fix k i o' o1
  assume "config o' = config op \<and> \<not> cancelled o'"
    and "processBatch env k (jsSlice (items (config o')) i (i + b)) o' = (None, o1)"
  then show "config (betweenBatches env b k i o1) = config op \<and> \<not> cancelled (betweenBatches env b k i o1)"
    using processBatch_frame(1,2)[of env k _ o' None o1] nc by simp
next
  fix k :: nat and i :: int and o' :: "'d BulkOperation"
  assume "config o' = config op \<and> \<not> cancelled o'"
  then show "None = None \<and> \<not> cancelled o'" by simp
next
  fix k :: nat and i :: int and o' :: "'d BulkOperation"
  assume "config o' = config op \<and> \<not> cancelled o'" "cancelled o'"
  then show "None = None \<and> \<not> cancelled (setStatus Cancelled o')" by simp
next
  fix k i o' x o1
  assume "config o' = config op \<and> \<not> cancelled o'"
    and pb: "processBatch env k (jsSlice (items (config o')) i (i + b)) o' = (Some x, o1)"
  with quiet have "fst (processBatch env k (jsSlice (items (config o')) i (i + b)) o') = None"
    by (intro processBatch_quiet) simp
  with pb show "Some x = None \<and> \<not> cancelled o1" by simp
qed

lemma batchOrder_Suc: "batchOrder (Suc m) = batchOrder m @ [Start m, End m]"
  by (simp add: batchOrder_def)

lemma batchOrder_0 [simp]: "batchOrder 0 = []"
  by (simp add: batchOrder_def)

lemma jsSlice_forward:
  assumes "0 \<le> s" "0 < b"
  shows "jsSlice xs s (s + b) = take (nat b) (drop (nat s) xs)"
proof -
  let ?n = "int (length xs)"
  have e: "\<not> s + b < 0" "\<not> s < 0" using assms by simp_all
  show ?thesis
  proof (cases "s < ?n")
    case False
    then have "min s ?n = ?n" "length xs \<le> nat s" using assms by simp_all
    then show ?thesis using e by (simp add: jsSlice_def Let_def)
  next
    case True
    then have f: "min s ?n = s" by simp
    show ?thesis
    proof (cases "s + b \<le> ?n")
      case le: True
      then have "min (s + b) ?n = s + b" by simp
      with f e show ?thesis by (simp add: jsSlice_def Let_def)
    next
      case gt: False
      then have t: "min (s + b) ?n = ?n" by simp
      have "length (drop (nat s) xs) \<le> nat (?n - s)" "length (drop (nat s) xs) \<le> nat b"
        using gt assms by simp_all
      then have "take (nat (?n - s)) (drop (nat s) xs) = take (nat b) (drop (nat s) xs)"
        by simp
      with f t e show ?thesis by (simp add: jsSlice_def Let_def)
    qed
  qed
qed

lemma jsSlice_chunk:
  assumes "0 < b"
  shows "jsSlice xs (int k * b) (int k * b + b) = chunk (nat b) xs k"
proof -
  have "nat (int k * b) = k * nat b" using assms by (simp add: nat_mult_distrib)
  moreover have "0 \<le> int k * b" using assms by simp
  ultimately show ?thesis using jsSlice_forward[of "int k * b" b xs] assms by (simp add: chunk_def)
qed

lemma concat_chunks: "concat (map (chunk B xs) [0..<m]) = take (m * B) xs"
proof (induction m)
  case 0
  then show ?case by simp
next
  case (Suc m)
  have "take (m * B) xs @ take B (drop (m * B) xs) = take (m * B + B) xs"
    by (simp add: take_add)
  with Suc show ?case by (simp add: chunk_def add.commute)
qed

lemma ceil_unique:
  fixes B n m :: nat
  assumes "0 < B" "n \<le> m * B" "m = 0 \<or> (m - 1) * B < n"
  shows "m = (n + B - 1) div B"
proof (cases m)
  case 0
  with assms show ?thesis by simp
next
  case (Suc q)
  with assms have lo: "q * B < n" and hi: "n \<le> Suc q * B" by simp_all
  have "B * Suc q \<le> n + B - 1" using lo assms(1) by (simp add: algebra_simps)
  moreover have "n + B - 1 < B * Suc (Suc q)" using hi assms(1) by (simp add: algebra_simps)
  ultimately have "(n + B - 1) div B = Suc q" by (rule div_nat_eqI)
  with Suc show ?thesis by simp
qed

lemma ceil_bound:
  fixes B n m :: nat
  assumes "0 < B" "m = 0 \<or> (m - 1) * B < n"
  shows "m \<le> (n + B - 1) div B"
proof (cases m)
  case 0
  then show ?thesis by simp
next
  case (Suc q)
  with assms have "q * B < n" by simp
  then have "Suc q * B \<le> n + B - 1" using assms(1) by simp
  then have "Suc q * B div B \<le> (n + B - 1) div B" by (rule div_le_mono)
  with assms(1) Suc show ?thesis by simp
qed

lemma chunk_sizes:
  fixes B n m j :: nat
  assumes "0 < B" "n = length xs" "n \<le> m * B" "m = 0 \<or> (m - 1) * B < n" "j < m"
  shows "length (chunk B xs j) = (if Suc j < m then B else if n mod B = 0 then B else n mod B)"
proof (cases "Suc j < m")
  case True
  then have "Suc j * B \<le> (m - 1) * B" by (intro mult_le_mono1) simp
  with assms(4,5) have "Suc j * B < n" by auto
  then have "B \<le> n - j * B" by simp
  with True assms(2) show ?thesis by (simp add: chunk_def)
next
  case False
  with assms(5) have mj: "m = Suc j" by simp
  have lo: "j * B < n" using assms(4) unfolding mj by simp
  have hi: "n \<le> j * B + B" using assms(3) unfolding mj by simp
  define r where "r = n - j * B"
  have r: "0 < r" "r \<le> B" "n = j * B + r" using lo hi by (simp_all add: r_def)
  have len: "length (chunk B xs j) = r" using lo hi assms(2) by (simp add: chunk_def r_def)
  show ?thesis
  proof (cases "r = B")
    case True
    with r(3) have "n mod B = 0" by simp
    with len True False show ?thesis by simp
  next
    case ne: False
    with r have "r < B" by simp
    with r(3) have "n mod B = r" by simp
    with len r(1) False show ?thesis by simp
  qed
qed

lemma batchLoop_partition:
  assumes run: "batchLoop env b 0 0 (op :: 'd BulkOperation) = Some (e, op')"
    and pos: "0 < b" and fresh: "trace op = []"
  shows "\<exists>m. batchMarks (trace op') = batchOrder m \<and>
           launchedBatches (trace op') = map (chunk (nat b) (items (config op))) [0..<m] \<and>
           (m = 0 \<or> (m - 1) * nat b < length (items (config op))) \<and>
           (e = None \<and> \<not> cancelled op' \<longrightarrow> length (items (config op)) \<le> m * nat b)"
    (is "?Q e op'")
proof -
  let ?n = "length (items (config op))"
  let ?B = "nat b"
  let ?I = "\<lambda>k i (o' :: 'd BulkOperation). config o' = config op \<and> i = int k * b \<and>
              batchMarks (trace o') = batchOrder k \<and>
              launchedBatches (trace o') = map (chunk ?B (items (config op))) [0..<k] \<and>
              (k = 0 \<or> (k - 1) * ?B < ?n)"
  have idx: "int k * b < int ?n \<longleftrightarrow> k * ?B < ?n" for k
  proof -
    have "int (k * ?B) = int k * b" using pos by simp
    then show ?thesis by (metis of_nat_less_iff)
  qed
  show ?thesis
  proof (rule batchLoop_rule[where I = ?I and Q = ?Q, OF run])
    show "?I 0 0 op" using fresh by simp
  next
    fix k i and o' o1 :: "'d BulkOperation"
    assume inv: "?I k i o'" and lt: "i < int (length (items (config o')))"
      and pb: "processBatch env k (jsSlice (items (config o')) i (i + b)) o' = (None, o1)"
    from inv pb have pb': "processBatch env k (chunk ?B (items (config op)) k) o' = (None, o1)"
      using jsSlice_chunk[OF pos, of "items (config op)" k] by simp
    from inv lt have "k * ?B < ?n" using idx[of k] by simp
    with processBatch_frame[OF pb'] inv
    show "?I (Suc k) (i + b) (betweenBatches env b k i o1)"
      by (simp add: batchOrder_Suc algebra_simps)
  next
    fix k i and o' :: "'d BulkOperation"
    assume inv: "?I k i o'" and ge: "\<not> i < int (length (items (config o')))"
    then have "?n \<le> k * ?B" using idx[of k] by simp
    with inv show "?Q None o'" by blast
  next
    fix k i and o' :: "'d BulkOperation"
    assume inv: "?I k i o'" and "cancelled o'"
    then show "?Q None (setStatus Cancelled o')" by auto
  next
    fix k i x and o' o1 :: "'d BulkOperation"
    assume inv: "?I k i o'" and lt: "i < int (length (items (config o')))"
      and pb: "processBatch env k (jsSlice (items (config o')) i (i + b)) o' = (Some x, o1)"
    from inv pb have pb': "processBatch env k (chunk ?B (items (config op)) k) o' = (Some x, o1)"
      using jsSlice_chunk[OF pos, of "items (config op)" k] by simp
    from inv lt have "k * ?B < ?n" using idx[of k] by simp
    with processBatch_frame[OF pb'] inv
    have "batchMarks (trace o1) = batchOrder (Suc k) \<and>
           launchedBatches (trace o1) = map (chunk ?B (items (config op))) [0..<Suc k] \<and>
           (Suc k = 0 \<or> (Suc k - 1) * ?B < ?n)"
      by (simp add: batchOrder_Suc)
    then show "?Q (Some x) o1" by blast
  qed
qed

lemma set_batchOrder: "Start k \<in> set (batchOrder m) \<longleftrightarrow> k < m"
  by (induction m) (auto simp: batchOrder_Suc)

lemma batchOrder_split: "k < m \<Longrightarrow> \<exists>post. batchOrder m = batchOrder k @ Start k # post"
proof (induction m)
  case 0
  then show ?case by simp
next
  case (Suc m)
  show ?case
  proof (cases "k = m")
    case True
    then show ?thesis by (simp add: batchOrder_Suc)
  next
    case False
    with Suc.prems have "k < m" by simp
    from Suc.IH[OF this] obtain post where "batchOrder m = batchOrder k @ Start k # post" by blast
    then have "batchOrder (Suc m) = batchOrder k @ Start k # (post @ [Start m, End m])"
      by (simp add: batchOrder_Suc)
    then show ?thesis by blast
  qed
qed

lemma batchOrder_settled_before:
  assumes "Start (Suc N) \<in> set (batchOrder m)"
  shows "\<exists>pre post. batchOrder m = pre @ Start (Suc N) # post \<and> End N \<in> set pre"
proof -
  from assms have "Suc N < m" by (simp add: set_batchOrder)
  from batchOrder_split[OF this] obtain post where
    "batchOrder m = batchOrder (Suc N) @ Start (Suc N) # post" by blast
  moreover have "End N \<in> set (batchOrder (Suc N))" by (simp add: batchOrder_Suc)
  ultimately show ?thesis by blast
qed

lemma batchCount_covers:
  fixes B n :: nat
  assumes "0 < B"
  shows "n \<le> batchCount n B * B"
proof -
  have "(n + B - 1) mod B < B" using assms by simp
  moreover have "(n + B - 1) div B * B + (n + B - 1) mod B = n + B - 1" by simp
  ultimately have "n + B - 1 < (n + B - 1) div B * B + B" by linarith
  then show ?thesis using assms by (simp add: batchCount_def)
qed

lemma batchCount_tight:
  fixes B n :: nat
  assumes "0 < B"
  shows "batchCount n B = 0 \<or> (batchCount n B - 1) * B < n"
proof (cases "n = 0")
  case True
  with assms show ?thesis by (simp add: batchCount_def)
next
  case False
  have "(n + B - 1) div B * B \<le> n + B - 1" by simp
  then have "batchCount n B * B \<le> n + B - 1" by (simp add: batchCount_def)
  moreover have "(batchCount n B - 1) * B = batchCount n B * B - B" by (simp add: diff_mult_distrib)
  ultimately have "(batchCount n B - 1) * B \<le> n - 1" by simp
  moreover from False have "n - 1 < n" by simp
  ultimately have "(batchCount n B - 1) * B < n" by (rule le_less_trans)
  then show ?thesis by (rule disjI2)
qed

lemma run_partition:
  assumes "0 < effectiveBatchSize cfg"
    and "execute env (newBulkOperation ident cfg) = Some (r, op)"
  shows "concat (map (chunk (nat (effectiveBatchSize cfg)) (items cfg))
           [0..<batchCount (length (items cfg)) (nat (effectiveBatchSize cfg))]) = items cfg \<and>
         (\<forall>j < batchCount (length (items cfg)) (nat (effectiveBatchSize cfg)).
            length (chunk (nat (effectiveBatchSize cfg)) (items cfg) j) =
              (if Suc j < batchCount (length (items cfg)) (nat (effectiveBatchSize cfg))
               then nat (effectiveBatchSize cfg)
               else if length (items cfg) mod nat (effectiveBatchSize cfg) = 0
                    then nat (effectiveBatchSize cfg)
                    else length (items cfg) mod nat (effectiveBatchSize cfg))) \<and>
         (\<exists>m \<le> batchCount (length (items cfg)) (nat (effectiveBatchSize cfg)).
            launchedBatches (trace op) = map (chunk (nat (effectiveBatchSize cfg)) (items cfg)) [0..<m] \<and>
            batchMarks (trace op) = batchOrder m \<and>
            (status (opStatus op) = Completed \<longrightarrow>
               m = batchCount (length (items cfg)) (nat (effectiveBatchSize cfg)))) \<and>
         (\<forall>N. Start (Suc N) \<in> set (batchMarks (trace op)) \<longrightarrow>
            (\<exists>pre post. batchMarks (trace op) = pre @ Start (Suc N) # post \<and> End N \<in> set pre))"
proof -
  let ?B = "nat (effectiveBatchSize cfg)"
  let ?n = "length (items cfg)"
  let ?M = "batchCount ?n ?B"
  have B: "0 < ?B" using assms(1) by simp
  have cov: "?n \<le> ?M * ?B" using B by (rule batchCount_covers)
  have tight: "?M = 0 \<or> (?M - 1) * ?B < ?n" using B by (rule batchCount_tight)
  have whole: "concat (map (chunk ?B (items cfg)) [0..<?M]) = items cfg"
    using cov by (simp add: concat_chunks)
  have sizes: "\<forall>j < ?M. length (chunk ?B (items cfg) j) =
      (if Suc j < ?M then ?B else if ?n mod ?B = 0 then ?B else ?n mod ?B)"
    using chunk_sizes[OF B refl cov tight] by blast
  obtain e op' where loop: "batchLoop env (effectiveBatchSize cfg) 0 0 (setStatus Running (newBulkOperation ident cfg)) = Some (e, op')"
    and fin: "trace op = trace op'" "status (opStatus op) = Completed \<longrightarrow> e = None \<and> \<not> cancelled op'"
    using assms(2) by (cases rule: execute_cases) (auto split: if_splits)
  from batchLoop_partition[OF loop assms(1)] obtain m where m:
    "batchMarks (trace op') = batchOrder m"
    "launchedBatches (trace op') = map (chunk ?B (items cfg)) [0..<m]"
    "m = 0 \<or> (m - 1) * ?B < ?n"
    "e = None \<and> \<not> cancelled op' \<longrightarrow> ?n \<le> m * ?B"
    by auto
  have bound: "m \<le> ?M" using ceil_bound[OF B m(3)] by (simp add: batchCount_def)
  have m1: "batchMarks (trace op) = batchOrder m" using m(1) fin(1) by simp
  have m2: "launchedBatches (trace op) = map (chunk ?B (items cfg)) [0..<m]" using m(2) fin(1) by simp
  have full: "status (opStatus op) = Completed \<longrightarrow> m = ?M"
  proof
    assume "status (opStatus op) = Completed"
    with fin(2) m(4) have "?n \<le> m * ?B" by simp
    from ceil_unique[OF B this m(3)] show "m = ?M" by (simp add: batchCount_def)
  qed
  have launched: "\<exists>m \<le> ?M. launchedBatches (trace op) = map (chunk ?B (items cfg)) [0..<m] \<and>
      batchMarks (trace op) = batchOrder m \<and> (status (opStatus op) = Completed \<longrightarrow> m = ?M)"
    using bound m1 m2 full by (intro exI[of _ m]) simp
  have order: "\<forall>N. Start (Suc N) \<in> set (batchMarks (trace op)) \<longrightarrow>
              (\<exists>pre post. batchMarks (trace op) = pre @ Start (Suc N) # post \<and> End N \<in> set pre)"
    using batchOrder_settled_before[of _ m] m1 by simp
  from whole sizes launched order show ?thesis by (intro conjI)
qed

lemma list_ex_filter: "list_ex P xs \<longleftrightarrow> 0 < length (filter P xs)"
  by (induction xs) auto

lemma bulk_success_threshold:
  assumes "execute env (newBulkOperation ident cfg) = Some (Inr res, op)"
  shows "bulkSuccess res = list_ex success (bulkResults res) \<and>
         bulkSuccess res = (0 < resSuccessCount res) \<and>
         resSuccessCount res = length (filter success (bulkResults res))"
proof -
  from run_sound[OF assms] have c: "countsOk op"
    and r: "res = \<lparr>bulkSuccess = successCount (opStatus op) > 0, resOperationId = opIdent op,
                resTotalItems = totalItems (opStatus op), resSuccessCount = successCount (opStatus op),
                resFailureCount = failureCount (opStatus op), bulkResults = opResults op\<rparr>"
    by blast+
  have a: "bulkSuccess res = (0 < successCount (opStatus op))" "resSuccessCount res = successCount (opStatus op)"
    "bulkResults res = opResults op"
    by (subst r, simp)+
  from c have "successCount (opStatus op) = length (filter success (opResults op))"
    by (simp add: countsOk_def)
  with a show ?thesis by (simp add: list_ex_filter)
qed

lemma workflow_success_threshold:
  "(\<forall>e. fst (workflowLoop c initialWf (steps w)) \<noteq> Threw e) \<Longrightarrow>
     wfSuccess (executeEnhancedWorkflow c w) = list_ex success (wfResults (executeEnhancedWorkflow c w))"
  by (cases "workflowLoop c initialWf (steps w)"; cases "fst (workflowLoop c initialWf (steps w))")
     (simp_all add: executeEnhancedWorkflow_def Let_def list_ex_filter)

lemma workflow_thrown_fails:
  "fst (workflowLoop c initialWf (steps w)) = Threw e \<Longrightarrow> \<not> wfSuccess (executeEnhancedWorkflow c w)"
  by (cases "workflowLoop c initialWf (steps w)") (simp add: executeEnhancedWorkflow_def)

lemma batchLoop_thrown:
  assumes run: "batchLoop env b k i (op :: 'd BulkOperation) = Some (e, op')"
  shows "\<forall>t. e = Some t \<longrightarrow> (\<exists>cb s. onProgress (config op) = Some cb \<and> cb s = Some t)"
proof (rule batchLoop_rule[where I = "\<lambda>k i (o' :: 'd BulkOperation). config o' = config op"
      and Q = "\<lambda>e (o' :: 'd BulkOperation). \<forall>t. e = Some t \<longrightarrow> (\<exists>cb s. onProgress (config op) = Some cb \<and> cb s = Some t)",
      OF run])
  show "config op = config op" by simp
next
  fix k i and o' o1 :: "'d BulkOperation"
  assume "config o' = config op"
    and "processBatch env k (jsSlice (items (config o')) i (i + b)) o' = (None, o1)"
  then show "config (betweenBatches env b k i o1) = config op"
    using processBatch_frame(1)[of env k _ o' None o1] by simp
next
  show "\<forall>t. None = Some t \<longrightarrow> (\<exists>cb s. onProgress (config op) = Some cb \<and> cb s = Some t)"
    by simp
next
  show "\<forall>t. None = Some t \<longrightarrow> (\<exists>cb s. onProgress (config op) = Some cb \<and> cb s = Some t)"
    by simp
next
  fix k i x and o' o1 :: "'d BulkOperation"
  assume "config o' = config op"
    and pb: "processBatch env k (jsSlice (items (config o')) i (i + b)) o' = (Some x, o1)"
  with processBatch_thrown[OF pb]
  show "\<forall>t. Some x = Some t \<longrightarrow> (\<exists>cb s. onProgress (config op) = Some cb \<and> cb s = Some t)"
    by simp
qed

lemma execute_thrown:
  assumes "execute env op0 = Some (Inl t, op1)"
  shows "status (opStatus op1) = Failed \<and> (\<exists>cb s. onProgress (config op0) = Some cb \<and> cb s = Some t)"
  using assms
proof (cases rule: execute_cases)
  case (failed u op')
  from batchLoop_thrown[OF failed(1)] failed(2,3) show ?thesis by simp
next
  case (returned op')
  then show ?thesis by simp
qed



lemma recorded_Fulfilled:
  "recorded (Fulfilled v, item) =
     (if success v then v
      else \<lparr>success = False, message = None, error = Some (jsString (error v)), data = Some (ItemOf item)\<rparr>)"
  by (simp add: recorded_def itemFailure_def)



text \<open>Instance of C9: two successful steps without dependencies.\<close>
theorem C9_witness:
  "dependsOn stepN = None \<and> dependsOn stepC = None \<and>
   length (wfResults (executeEnhancedWorkflow okCoordinator \<lparr>name = ''w'', steps = [stepN, stepC]\<rparr>)) = 2 \<and>
   dispatchStep okCoordinator 0 stepN =
     Fulfilled (wfResults (executeEnhancedWorkflow okCoordinator \<lparr>name = ''w'', steps = [stepN, stepC]\<rparr>) ! 0) \<and>
   dispatchStep okCoordinator 1 stepC =
     Fulfilled (wfResults (executeEnhancedWorkflow okCoordinator \<lparr>name = ''w'', steps = [stepN, stepC]\<rparr>) ! 1)"
proof -
  let ?w = "\<lparr>name = ''w'', steps = [stepN, stepC]\<rparr> :: nat Workflow"
  have a: "\<forall>s \<in> set (steps ?w). dependsOn s = None \<or> dependsOn s = Some []"
    by (simp add: stepN_def stepC_def)
  have d: "dispatchStep okCoordinator k stepN = Fulfilled okResult"
    "dispatchStep okCoordinator k stepC = Fulfilled okResult" for k
    by (simp_all add: dispatchStep_def executeCatalogOperation_def executeSEOOperation_def
        okCoordinator_def stepN_def stepC_def)
  have ok: "\<forall>k < length (steps ?w). \<exists>r. dispatchStep okCoordinator k (steps ?w ! k) = Fulfilled r \<and>
              (critical (steps ?w ! k) \<longrightarrow> success r)"
  proof (intro allI impI)
    fix k assume "k < length (steps ?w)"
    then have "k = 0 \<or> k = 1" by auto
    then show "\<exists>r. dispatchStep okCoordinator k (steps ?w ! k) = Fulfilled r \<and>
              (critical (steps ?w ! k) \<longrightarrow> success r)"
      using d by (auto simp: okResult_def)
  qed
  from C9_results_follow_declaration_order[OF a, of okCoordinator] ok
  have l: "length (wfResults (executeEnhancedWorkflow okCoordinator ?w)) = 2"
    and o: "\<forall>k < length (wfResults (executeEnhancedWorkflow okCoordinator ?w)).
            dispatchStep okCoordinator k (steps ?w ! k) =
              Fulfilled (wfResults (executeEnhancedWorkflow okCoordinator ?w) ! k)"
    by simp_all
  have "(0::nat) < length (wfResults (executeEnhancedWorkflow okCoordinator ?w))"
    "(1::nat) < length (wfResults (executeEnhancedWorkflow okCoordinator ?w))"
    using l by simp_all
  from o[rule_format, OF this(1)] o[rule_format, OF this(2)]
  have "dispatchStep okCoordinator 0 stepN =
              Fulfilled (wfResults (executeEnhancedWorkflow okCoordinator ?w) ! 0)"
    "dispatchStep okCoordinator 1 stepC =
              Fulfilled (wfResults (executeEnhancedWorkflow okCoordinator ?w) ! 1)"
    by simp_all
  with l show ?thesis by (simp add: stepN_def stepC_def)
qed


lemma batchLoop_terminates_cancel:
  assumes "cancelDuring env K"
  shows "k \<le> Suc K \<Longrightarrow> (k = Suc K \<longrightarrow> cancelled op) \<Longrightarrow> \<exists>y. batchLoop env b k i op = Some y"
proof (induction "Suc K - k" arbitrary: k i op)
  case 0
  then have "cancelled op" by simp
  then show ?case by (subst batchLoop.simps) simp
next
  case (Suc d)
  show ?case
  proof (cases "i < int (length (items (config op))) \<and> \<not> cancelled op")
    case False
    then show ?thesis by (subst batchLoop.simps) auto
  next
    case True
    obtain x op1 where pb: "processBatch env k (jsSlice (items (config op)) i (i + b)) op = (x, op1)"
      by (cases "processBatch env k (jsSlice (items (config op)) i (i + b)) op") auto
    show ?thesis
    proof (cases x)
      case (Some t)
      with True pb show ?thesis by (subst batchLoop.simps) simp
    next
      case None
      let ?op2 = "betweenBatches env b k i op1"
      from Suc.hyps(2) have d: "d = Suc K - Suc k" and le: "Suc k \<le> Suc K" by simp_all
      have c: "Suc k = Suc K \<longrightarrow> cancelled ?op2" using assms by simp
      from Suc.hyps(1)[OF d le c] obtain y where "batchLoop env b (Suc k) (i + b) ?op2 = Some y"
        by blast
      with True pb None show ?thesis by (subst batchLoop.simps) simp
    qed
  qed
qed

lemma index_in_range:
  fixes b :: int
  assumes "0 < n" "int K * b < int n" "j \<le> K"
  shows "int j * b < int n"
proof (cases "0 \<le> b")
  case True
  from assms(3) have "int j * b \<le> int K * b" using True by (intro mult_right_mono) simp_all
  with assms(2) show ?thesis by simp
next
  case False
  then have "int j * b \<le> 0" by (simp add: mult_nonneg_nonpos)
  with assms(1) show ?thesis by simp
qed

lemma batchLoop_cancel:
  assumes run: "batchLoop env b 0 0 (op :: 'd BulkOperation) = Some (e, op')"
    and first: "cancelDuring env K" "\<forall>j < K. \<not> cancelDuring env j"
    and exists: "items (config op) \<noteq> []" "int K * b < int (length (items (config op)))"
    and fresh: "trace op = []" "\<not> cancelled op" "processedItems (opStatus op) = 0"
  shows "Start (Suc K) \<notin> set (batchMarks (trace op')) \<and>
         (e = None \<longrightarrow> cancelled op' \<and> batchMarks (trace op') = batchOrder (Suc K) \<and>
            processedItems (opStatus op') = length (concat (launchedBatches (trace op'))))"
    (is "?Q e op'")
proof -
  let ?n = "length (items (config op))"
  let ?I = "\<lambda>k i (o' :: 'd BulkOperation). config o' = config op \<and> i = int k * b \<and> k \<le> Suc K \<and>
              (cancelled o' \<longleftrightarrow> k = Suc K) \<and> batchMarks (trace o') = batchOrder k \<and>
              processedItems (opStatus o') = length (concat (launchedBatches (trace o')))"
  have n: "0 < ?n" using exists(1) by simp
  have nomark: "Start (Suc K) \<notin> set (batchOrder k)" if "k \<le> Suc K" for k
    using that by (simp add: set_batchOrder)
  show ?thesis
  proof (rule batchLoop_rule[where I = ?I and Q = ?Q, OF run])
    show "?I 0 0 op" using fresh by simp
  next
    fix k i and o' o1 :: "'d BulkOperation"
    assume inv: "?I k i o'" and nc: "\<not> cancelled o'"
      and pb: "processBatch env k (jsSlice (items (config o')) i (i + b)) o' = (None, o1)"
    from inv nc have kK: "k \<le> K" by simp
    then have cd: "cancelDuring env k \<longleftrightarrow> k = K" using first by (cases "k = K") auto
    from processBatch_tallied[OF pb]
    have p1: "processedItems (opStatus o1) =
        processedItems (opStatus o') + length (jsSlice (items (config o')) i (i + b))"
      by auto
    from processBatch_frame[OF pb] inv nc kK cd p1
    show "?I (Suc k) (i + b) (betweenBatches env b k i o1)"
      by (simp add: batchOrder_Suc algebra_simps)
  next
    fix k i and o' :: "'d BulkOperation"
    assume inv: "?I k i o'" and ge: "\<not> i < int (length (items (config o')))"
    have "k = Suc K"
    proof (rule ccontr)
      assume "k \<noteq> Suc K"
      with inv have "k \<le> K" by simp
      from index_in_range[OF n exists(2) this] inv ge show False by simp
    qed
    with inv show "?Q None o'" using nomark[of k] by simp
  next
    fix k i and o' :: "'d BulkOperation"
    assume inv: "?I k i o'" and c: "cancelled o'"
    then show "?Q None (setStatus Cancelled o')" using nomark[of k] by simp
  next
    fix k i x and o' o1 :: "'d BulkOperation"
    assume inv: "?I k i o'" and nc: "\<not> cancelled o'"
      and pb: "processBatch env k (jsSlice (items (config o')) i (i + b)) o' = (Some x, o1)"
    from inv nc have "Suc k \<le> Suc K" by simp
    from nomark[OF this] processBatch_frame(6)[OF pb] inv
    show "?Q (Some x) o1" by (simp add: batchOrder_Suc)
  qed
qed

lemma cancelOperation_result:
  "fst (cancelOperation m operationId) \<longleftrightarrow> activeOperations m operationId \<noteq> None"
  by (simp add: cancelOperation_def split: option.splits)

lemma cancelOperation_effect:
  "activeOperations m operationId = Some bulkOp \<Longrightarrow>
     activeOperations (snd (cancelOperation m operationId)) =
       (activeOperations m)(operationId \<mapsto> bulkOp\<lparr>cancelled := True\<rparr>)"
  by (simp add: cancelOperation_def cancel_def)

lemma cancelOperation_unknown:
  "activeOperations m operationId = None \<Longrightarrow> cancelOperation m operationId = (False, m)"
  by (simp add: cancelOperation_def)

lemma executeBulkOperation_unregisters:
  "executeBulkOperation m env operationId cfg = Some (r, m') \<Longrightarrow> activeOperations m' operationId = None"
  by (auto simp: executeBulkOperation_def split: option.splits prod.splits)

lemma registerOperation_registers:
  "activeOperations (registerOperation m operationId cfg) operationId = Some (newBulkOperation operationId cfg)"
  by (simp add: registerOperation_def)

lemmas bulk_eval = execute_def effectiveBatchSize_def newBulkOperation_def setStatus_def
  processBatch_def processItem_def settleItem_def countSuccess_def countFailure_def logEvents_def
  getStatus_def jsSlice_def betweenBatches_def cancel_def Let_def enumerate_eq_zip

lemma failed_run:
  "execute cancelEnv (newBulkOperation ''bulk-op-3'' throwing) =
     Some (Inl (JsError ''progress handler failed''), failedOp)"
  by (simp add: bulk_eval batchLoop.simps cancelEnv_def throwing_def failedOp_def okResult_def)

lemma finished_run:
  "execute evenEnv (newBulkOperation ''bulk-op-9'' single) = Some (Inr finishedResult, finishedOp)"
  by (simp add: bulk_eval batchLoop.simps evenEnv_def single_def finishedOp_def finishedResult_def okResult_def)

text \<open>Claim C6 (cooperative cancellation). If cancel is first requested while batch
  \<open>K\<close> is in flight, the run ends, batch \<open>K + 1\<close> is never started, and a run
  that returns a result is cancelled with all items of the launched batches counted; it
  returns a result whenever no progress callback throws. \<open>cancelOperation\<close> returns
  true exactly for an identifier registered in \<open>activeOperations\<close>, sets the
  cancelled flag of that operation and changes nothing otherwise; an operation is registered
  when it starts and is no longer registered once \<open>executeBulkOperation\<close> is over.\<close>
theorem C6_cooperative_cancellation:
  "(cancelDuring env K \<and> (\<forall>j < K. \<not> cancelDuring env j) \<and> items cfg \<noteq> [] \<and>
    int K * effectiveBatchSize cfg < int (length (items cfg)) \<longrightarrow>
      (\<exists>r op. execute env (newBulkOperation ident cfg) = Some (r, op) \<and>
          Start (Suc K) \<notin> set (batchMarks (trace op)) \<and>
          (\<forall>res. r = Inr res \<longrightarrow>
              status (opStatus op) = Cancelled \<and> batchMarks (trace op) = batchOrder (Suc K) \<and>
              processedItems (opStatus op) = length (concat (launchedBatches (trace op)))) \<and>
          ((\<forall>cb s. onProgress cfg = Some cb \<longrightarrow> cb s = None) \<longrightarrow> (\<exists>res. r = Inr res)))) \<and>
   fst (cancelOperation m operationId) = (activeOperations m operationId \<noteq> None) \<and>
   (\<forall>bulkOp. activeOperations m operationId = Some bulkOp \<longrightarrow>
      activeOperations (snd (cancelOperation m operationId)) =
        (activeOperations m)(operationId \<mapsto> bulkOp\<lparr>cancelled := True\<rparr>)) \<and>
   (activeOperations m operationId = None \<longrightarrow> snd (cancelOperation m operationId) = m) \<and>
   fst (cancelOperation (registerOperation m operationId cfg) operationId) \<and>
   (\<forall>r m'. executeBulkOperation m env operationId cfg = Some (r, m') \<longrightarrow>
      \<not> fst (cancelOperation m' operationId))"
proof (intro conjI impI allI)
  assume h: "cancelDuring env K \<and> (\<forall>j < K. \<not> cancelDuring env j) \<and> items cfg \<noteq> [] \<and>
    int K * effectiveBatchSize cfg < int (length (items cfg))"
  let ?op0 = "setStatus Running (newBulkOperation ident cfg)"
  from h have cK: "cancelDuring env K" by simp
  have "\<exists>y. batchLoop env (effectiveBatchSize cfg) 0 0 ?op0 = Some y"
    by (rule batchLoop_terminates_cancel[OF cK]) simp_all
  then obtain e op' where loop: "batchLoop env (effectiveBatchSize cfg) 0 0 ?op0 = Some (e, op')"
    by (metis surj_pair)
  from batchLoop_cancel[OF loop cK] h
  have q: "Start (Suc K) \<notin> set (batchMarks (trace op'))"
    "e = None \<longrightarrow> cancelled op' \<and> batchMarks (trace op') = batchOrder (Suc K) \<and>
            processedItems (opStatus op') = length (concat (launchedBatches (trace op')))"
    by simp_all
  obtain r op where run: "execute env (newBulkOperation ident cfg) = Some (r, op)"
    and tr: "trace op = trace op'" "processedItems (opStatus op) = processedItems (opStatus op')"
    and st: "\<forall>res. r = Inr res \<longrightarrow> e = None \<and> (cancelled op' \<longrightarrow> status (opStatus op) = Cancelled)"
    using loop by (cases e) (simp_all add: execute_def Let_def)
  have a: "\<forall>res. r = Inr res \<longrightarrow>
              status (opStatus op) = Cancelled \<and> batchMarks (trace op) = batchOrder (Suc K) \<and>
              processedItems (opStatus op) = length (concat (launchedBatches (trace op)))"
    using q(2) st tr by simp
  have b: "(\<forall>cb s. onProgress cfg = Some cb \<longrightarrow> cb s = None) \<longrightarrow> (\<exists>res. r = Inr res)"
  proof
    assume quiet: "\<forall>cb s. onProgress cfg = Some cb \<longrightarrow> cb s = None"
    show "\<exists>res. r = Inr res"
    proof (cases r)
      case (Inl t)
      with run execute_thrown[of env "newBulkOperation ident cfg" t op] quiet show ?thesis by auto
    next
      case (Inr res)
      then show ?thesis by blast
    qed
  qed
  from run q(1) tr(1) a b
  show "\<exists>r op. execute env (newBulkOperation ident cfg) = Some (r, op) \<and>
          Start (Suc K) \<notin> set (batchMarks (trace op)) \<and>
          (\<forall>res. r = Inr res \<longrightarrow>
              status (opStatus op) = Cancelled \<and> batchMarks (trace op) = batchOrder (Suc K) \<and>
              processedItems (opStatus op) = length (concat (launchedBatches (trace op)))) \<and>
          ((\<forall>cb s. onProgress cfg = Some cb \<longrightarrow> cb s = None) \<longrightarrow> (\<exists>res. r = Inr res))"
    by (intro exI[of _ r] exI[of _ op]) simp
next
  show "fst (cancelOperation m operationId) = (activeOperations m operationId \<noteq> None)"
    by (rule cancelOperation_result)
next
  fix bulkOp assume "activeOperations m operationId = Some bulkOp"
  then show "activeOperations (snd (cancelOperation m operationId)) =
        (activeOperations m)(operationId \<mapsto> bulkOp\<lparr>cancelled := True\<rparr>)"
    by (rule cancelOperation_effect)
next
  assume "activeOperations m operationId = None"
  then show "snd (cancelOperation m operationId) = m" by (simp add: cancelOperation_unknown)
next
  show "fst (cancelOperation (registerOperation m operationId cfg) operationId)"
    by (simp add: cancelOperation_result registerOperation_registers)
next
  fix r m' assume "executeBulkOperation m env operationId cfg = Some (r, m')"
  from executeBulkOperation_unregisters[OF this]
  show "\<not> fst (cancelOperation m' operationId)" by (simp add: cancelOperation_result)
qed

text \<open>Instance of C6: cancel requested during the first batch of twelve items.\<close>
theorem C6_witness:
  "cancelDuring cancelEnv 0 \<and> items twelve \<noteq> [] \<and>
   (\<exists>res op. execute cancelEnv (newBulkOperation ''bulk-op-4'' twelve) = Some (Inr res, op) \<and>
      status (opStatus op) = Cancelled \<and> batchMarks (trace op) = [Start 0, End 0] \<and>
      processedItems (opStatus op) = length (concat (launchedBatches (trace op))) \<and>
      processedItems (opStatus op) = 5) \<and>
   fst (cancelOperation (registerOperation emptyManager ''bulk-op-4'' twelve) ''bulk-op-4'') \<and>
   fst (cancelOperation emptyManager ''bulk-op-4'') = False"
proof -
  have c0: "cancelDuring cancelEnv 0" by (simp add: cancelEnv_def)
  have ne: "items twelve \<noteq> []" by (simp add: twelve_def)
  have h: "cancelDuring cancelEnv 0 \<and> (\<forall>j < 0. \<not> cancelDuring cancelEnv j) \<and> items twelve \<noteq> [] \<and>
    int 0 * effectiveBatchSize twelve < int (length (items twelve))"
    using c0 ne by simp
  have quiet: "\<forall>cb s. onProgress twelve = Some cb \<longrightarrow> cb s = None" by (simp add: twelve_def)
  have p5: "case execute cancelEnv (newBulkOperation ''bulk-op-4'' twelve) of None \<Rightarrow> False
     | Some (r, op) \<Rightarrow> processedItems (opStatus op) = 5"
    by code_simp
  have none: "activeOperations emptyManager ''bulk-op-4'' = None" by (simp add: emptyManager_def)
  note C = C6_cooperative_cancellation[of cancelEnv 0 twelve "''bulk-op-4''" emptyManager "''bulk-op-4''"]
  from C h quiet obtain res op where
    run: "execute cancelEnv (newBulkOperation ''bulk-op-4'' twelve) = Some (Inr res, op)"
    and st: "status (opStatus op) = Cancelled" "batchMarks (trace op) = batchOrder (Suc 0)"
      "processedItems (opStatus op) = length (concat (launchedBatches (trace op)))"
    by blast
  from p5 run have five: "processedItems (opStatus op) = 5" by simp
  have "execute cancelEnv (newBulkOperation ''bulk-op-4'' twelve) = Some (Inr res, op) \<and>
      status (opStatus op) = Cancelled \<and> batchMarks (trace op) = [Start 0, End 0] \<and>
      processedItems (opStatus op) = length (concat (launchedBatches (trace op))) \<and>
      processedItems (opStatus op) = 5"
    using run st five by (simp add: batchOrder_def)
  then have ex: "\<exists>res op. execute cancelEnv (newBulkOperation ''bulk-op-4'' twelve) = Some (Inr res, op) \<and>
      status (opStatus op) = Cancelled \<and> batchMarks (trace op) = [Start 0, End 0] \<and>
      processedItems (opStatus op) = length (concat (launchedBatches (trace op))) \<and>
      processedItems (opStatus op) = 5"
    by (intro exI[of _ res] exI[of _ op])
  from C none have "fst (cancelOperation (registerOperation emptyManager ''bulk-op-4'' twelve) ''bulk-op-4'')"
    "fst (cancelOperation emptyManager ''bulk-op-4'') = False"
    by simp_all
  with c0 ne ex show ?thesis by simp
qed

text \<open>An operation that has completed but is still registered is cancelled with
  answer true; and a run cancelled during its first batch whose progress callback throws ends
  failed, with one of two items counted.\<close>
theorem C6_counterexample:
  "settledRun emptyManager evenEnv ''bulk-op-9'' single = Some (Inr finishedResult, settledManager) \<and>
   activeOperations settledManager ''bulk-op-9'' = Some finishedOp \<and>
   isCompleted finishedOp \<and>
   fst (cancelOperation settledManager ''bulk-op-9'') = True \<and>
   cancelDuring cancelEnv 0 \<and>
   execute cancelEnv (newBulkOperation ''bulk-op-3'' throwing) =
     Some (Inl (JsError ''progress handler failed''), failedOp) \<and>
   status (opStatus failedOp) = Failed \<and>
   processedItems (opStatus failedOp) = 1 \<and>
   length (items throwing) = 2"
proof -
  have a: "settledRun emptyManager evenEnv ''bulk-op-9'' single = Some (Inr finishedResult, settledManager)"
    by (simp add: settledRun_def finished_run registerOperation_def emptyManager_def settledManager_def)
  have b: "activeOperations settledManager ''bulk-op-9'' = Some finishedOp"
    by (simp add: settledManager_def)
  have c: "isCompleted finishedOp" by (simp add: isCompleted_def finishedOp_def)
  have d: "fst (cancelOperation settledManager ''bulk-op-9'') = True"
    by (simp add: cancelOperation_def b)
  have e: "cancelDuring cancelEnv 0" by (simp add: cancelEnv_def)
  have f: "status (opStatus failedOp) = Failed" "processedItems (opStatus failedOp) = 1"
    "length (items throwing) = 2"
    by (simp_all add: failedOp_def throwing_def)
  from a b c d e failed_run f show ?thesis by simp
qed

text \<open>Claim C1 (success threshold). A workflow run in which no dispatch throws reports
  success exactly when at least one recorded step result is successful; a run in which a
  dispatch throws reports failure, whatever was recorded before. A bulk run that returns a
  result reports success exactly when at least one recorded item result is successful, which
  is the same as a positive \<open>successCount\<close>; the number of failures plays no part.\<close>
theorem C1_success_threshold:
  "((\<forall>e. fst (workflowLoop c initialWf (steps w)) \<noteq> Threw e) \<longrightarrow>
      wfSuccess (executeEnhancedWorkflow c w) =
        list_ex success (wfResults (executeEnhancedWorkflow c w))) \<and>
   ((\<exists>e. fst (workflowLoop c initialWf (steps w)) = Threw e) \<longrightarrow>
      \<not> wfSuccess (executeEnhancedWorkflow c w)) \<and>
   (execute env (newBulkOperation ident cfg) = Some (Inr res, op) \<longrightarrow>
      bulkSuccess res = list_ex success (bulkResults res) \<and>
      bulkSuccess res = (0 < resSuccessCount res) \<and>
      resSuccessCount res = length (filter success (bulkResults res)))"
proof (intro conjI impI)
  assume "\<forall>e. fst (workflowLoop c initialWf (steps w)) \<noteq> Threw e"
  then show "wfSuccess (executeEnhancedWorkflow c w) =
        list_ex success (wfResults (executeEnhancedWorkflow c w))"
    by (rule workflow_success_threshold)
next
  assume "\<exists>e. fst (workflowLoop c initialWf (steps w)) = Threw e"
  then show "\<not> wfSuccess (executeEnhancedWorkflow c w)"
    using workflow_thrown_fails by blast
next
  assume run: "execute env (newBulkOperation ident cfg) = Some (Inr res, op)"
  from bulk_success_threshold[OF run]
  show "bulkSuccess res = list_ex success (bulkResults res)"
    and "bulkSuccess res = (0 < resSuccessCount res)"
    and "resSuccessCount res = length (filter success (bulkResults res))"
    by blast+
qed

text \<open>Instances of C1: a workflow with two failing non-critical steps, a workflow with
  two successful steps, a workflow whose dispatch throws, and a bulk run of twelve items of
  which six succeed.\<close>
theorem C1_witness:
  "fst (workflowLoop failingCoordinator initialWf (steps \<lparr>name = ''w'', steps = [stepN, stepC]\<rparr>)) = Finished \<and>
   wfSuccess (executeEnhancedWorkflow failingCoordinator \<lparr>name = ''w'', steps = [stepN, stepC]\<rparr>) = False \<and>
   list_ex success (wfResults (executeEnhancedWorkflow failingCoordinator \<lparr>name = ''w'', steps = [stepN, stepC]\<rparr>)) = False \<and>
   wfSuccess (executeEnhancedWorkflow okCoordinator \<lparr>name = ''w'', steps = [stepA, stepC]\<rparr>) \<and>
   fst (workflowLoop bulkSeoCoordinator initialWf (steps bulkSeoWorkflow)) =
     Threw (JsError ''seoAgent.bulkUpdateSEO is not a function'') \<and>
   wfSuccess (executeEnhancedWorkflow bulkSeoCoordinator bulkSeoWorkflow) = False \<and>
   (\<exists>res op. execute evenEnv (newBulkOperation ''bulk-op-1'' twelve) = Some (Inr res, op) \<and>
      bulkSuccess res \<and> list_ex success (bulkResults res) \<and> resSuccessCount res = 6)"
proof -
  let ?w = "\<lparr>name = ''w'', steps = [stepN, stepC]\<rparr> :: nat Workflow"
  let ?v = "\<lparr>name = ''w'', steps = [stepA, stepC]\<rparr> :: nat Workflow"
  have f: "fst (workflowLoop failingCoordinator initialWf (steps ?w)) = Finished"
    by (simp add: wf_eval failingCoordinator_def stepN_def stepC_def failRes_def)
  have g: "fst (workflowLoop okCoordinator initialWf (steps ?v)) = Finished"
    by (simp add: wf_eval okCoordinator_def stepA_def stepC_def okResult_def)
  have r1: "list_ex success (wfResults (executeEnhancedWorkflow failingCoordinator ?w)) = False"
    by (simp add: wf_eval failingCoordinator_def stepN_def stepC_def failRes_def)
  have r2: "list_ex success (wfResults (executeEnhancedWorkflow okCoordinator ?v))"
    by (simp add: wf_eval okCoordinator_def stepA_def stepC_def okResult_def)
  have t: "fst (workflowLoop bulkSeoCoordinator initialWf (steps bulkSeoWorkflow)) =
     Threw (JsError ''seoAgent.bulkUpdateSEO is not a function'')"
    by (simp add: wf_eval bulkSeoCoordinator_def bulkSeoWorkflow_def okResult_def)
  have "case execute evenEnv (newBulkOperation ''bulk-op-1'' twelve) of None \<Rightarrow> False
     | Some (r, op) \<Rightarrow> (case r of Inl t \<Rightarrow> False | Inr res \<Rightarrow> resSuccessCount res = 6)"
    by code_simp
  then obtain res op where run: "execute evenEnv (newBulkOperation ''bulk-op-1'' twelve) = Some (Inr res, op)"
    and six: "resSuccessCount res = 6"
    by (auto split: option.splits sum.splits)
  have nf: "\<forall>e. fst (workflowLoop failingCoordinator initialWf (steps ?w)) \<noteq> Threw e"
    unfolding f by simp
  have ng: "\<forall>e. fst (workflowLoop okCoordinator initialWf (steps ?v)) \<noteq> Threw e"
    unfolding g by simp
  have th: "\<exists>e. fst (workflowLoop bulkSeoCoordinator initialWf (steps bulkSeoWorkflow)) = Threw e"
    unfolding t by simp
  from C1_success_threshold[where c = failingCoordinator and w = ?w, THEN conjunct1] nf r1
  have a: "wfSuccess (executeEnhancedWorkflow failingCoordinator ?w) = False" by blast
  from C1_success_threshold[where c = okCoordinator and w = ?v, THEN conjunct1] ng r2
  have b: "wfSuccess (executeEnhancedWorkflow okCoordinator ?v)" by blast
  from C1_success_threshold[where c = bulkSeoCoordinator and w = bulkSeoWorkflow, THEN conjunct2, THEN conjunct1] th
  have c: "wfSuccess (executeEnhancedWorkflow bulkSeoCoordinator bulkSeoWorkflow) = False" by blast
  from C1_success_threshold[where env = evenEnv and ident = "''bulk-op-1''" and cfg = twelve
      and res = res and op = op, THEN conjunct2, THEN conjunct2] run
  have "bulkSuccess res = list_ex success (bulkResults res)" "bulkSuccess res = (0 < resSuccessCount res)"
    by blast+
  with six have "bulkSuccess res \<and> list_ex success (bulkResults res)" by simp
  with run six have "execute evenEnv (newBulkOperation ''bulk-op-1'' twelve) = Some (Inr res, op) \<and>
      bulkSuccess res \<and> list_ex success (bulkResults res) \<and> resSuccessCount res = 6" by simp
  then have d: "\<exists>res op. execute evenEnv (newBulkOperation ''bulk-op-1'' twelve) = Some (Inr res, op) \<and>
      bulkSuccess res \<and> list_ex success (bulkResults res) \<and> resSuccessCount res = 6"
    by (intro exI[of _ res] exI[of _ op])
  from f a r1 b t c d show ?thesis by (simp del: workflowLoop.simps)
qed

text \<open>The \<open>bulk-seo\<close> workflow against the enhanced SEO agent: the
  first step succeeds, the second dispatch throws because the agent has no
  \<open>bulkUpdateSEO\<close> method, and the catch block reports failure although a successful
  result is recorded.\<close>
theorem C1_counterexample:
  "wfSuccess (executeEnhancedWorkflow bulkSeoCoordinator bulkSeoWorkflow) = False \<and>
   wfResults (executeEnhancedWorkflow bulkSeoCoordinator bulkSeoWorkflow) = [okResult] \<and>
   success okResult = True"
  by (simp add: wf_eval bulkSeoCoordinator_def bulkSeoWorkflow_def okResult_def)


section \<open>Runs watched while in flight\<close>

lemma batchLoopFor_exited:
  "batchLoopFor env b n k i op = Exited e op' \<Longrightarrow> batchLoop env b k i op = Some (e, op')"
proof (induction n arbitrary: k i op)
  case 0
  then show ?case by simp
next
  case (Suc n)
  show ?case
  proof (cases "i < int (length (items (config op))) \<and> \<not> cancelled op")
    case False
    with Suc.prems show ?thesis by (auto simp: batchLoop.simps split: if_splits)
  next
    case True
    obtain x op1 where pb: "processBatch env k (jsSlice (items (config op)) i (i + b)) op = (x, op1)"
      by (cases "processBatch env k (jsSlice (items (config op)) i (i + b)) op") auto
    show ?thesis
    proof (cases x)
      case None
      with True pb Suc.prems
      have "batchLoopFor env b n (Suc k) (i + b) (betweenBatches env b k i op1) = Exited e op'" by simp
      from Suc.IH[OF this] True pb None show ?thesis by (subst batchLoop.simps) simp
    next
      case (Some t)
      with True pb Suc.prems have "e = Some t" "op' = op1" by simp_all
      with True pb Some show ?thesis by (subst batchLoop.simps) simp
    qed
  qed
qed

lemma batchLoop_exits:
  assumes "batchLoop env b k i op = Some (e, op')"
  shows "\<exists>n. batchLoopFor env b n k i op = Exited e op'"
proof -
  have main: "\<exists>n. batchLoopFor env0 b0 n k i op = Exited (fst y) (snd y)"
    if "batchLoop env0 b0 k i op = Some y" for env0 b0 k i op y
    using that
  proof (induct env0 b0 k i op y rule: batchLoop.raw_induct[rotated 1, consumes 1, case_names 1])
    case (1 loop env0 b0 k i op y)
    show ?case
    proof (cases "i < int (length (items (config op))) \<and> \<not> cancelled op")
      case False
      with 1(2) have "batchLoopFor env0 b0 (Suc 0) k i op = Exited (fst y) (snd y)"
        by (auto split: if_splits)
      then show ?thesis by (rule exI)
    next
      case True
      obtain x op1 where pb: "processBatch env0 k (jsSlice (items (config op)) i (i + b0)) op = (x, op1)"
        by (cases "processBatch env0 k (jsSlice (items (config op)) i (i + b0)) op") auto
      show ?thesis
      proof (cases x)
        case None
        with True pb 1(2)
        have "loop env0 b0 (Suc k) (i + b0) (betweenBatches env0 b0 k i op1) = Some y" by simp
        from 1(1)[OF this] obtain n where
          "batchLoopFor env0 b0 n (Suc k) (i + b0) (betweenBatches env0 b0 k i op1) = Exited (fst y) (snd y)"
          by blast
        with True pb None have "batchLoopFor env0 b0 (Suc n) k i op = Exited (fst y) (snd y)" by simp
        then show ?thesis by (rule exI)
      next
        case (Some t)
        with True pb 1(2) have "y = (Some t, op1)" by simp
        with True pb Some have "batchLoopFor env0 b0 (Suc 0) k i op = Exited (fst y) (snd y)" by simp
        then show ?thesis by (rule exI)
      qed
    qed
  qed
  from main[OF assms] show ?thesis by simp
qed

lemma executeFor_settled:
  "executeFor env n op0 = Settled r op \<Longrightarrow> execute env op0 = Some (r, op)"
proof -
  assume a: "executeFor env n op0 = Settled r op"
  then obtain e op' where
    l: "batchLoopFor env (effectiveBatchSize (config op0)) n 0 0 (setStatus Running op0) = Exited e op'"
    by (cases "batchLoopFor env (effectiveBatchSize (config op0)) n 0 0 (setStatus Running op0)")
       (simp_all add: executeFor_def)
  from batchLoopFor_exited[OF l] a l show ?thesis
    by (cases e) (simp_all add: executeFor_def execute_def Let_def)
qed

lemma execute_settles:
  assumes "execute env op0 = Some (r, op)"
  shows "\<exists>n. executeFor env n op0 = Settled r op"
proof -
  from assms obtain e op' where
    l: "batchLoop env (effectiveBatchSize (config op0)) 0 0 (setStatus Running op0) = Some (e, op')"
    by (auto simp: execute_def split: option.splits)
  from batchLoop_exits[OF l] obtain n where
    "batchLoopFor env (effectiveBatchSize (config op0)) n 0 0 (setStatus Running op0) = Exited e op'"
    by blast
  with assms l have "executeFor env n op0 = Settled r op"
    by (cases e) (auto simp: executeFor_def execute_def Let_def)
  then show ?thesis by (rule exI)
qed

lemma batchLoopFor_head:
  assumes run: "batchLoopFor env b n k i op = AtHead k' i' op'"
    and c0: "countsOk op"
    and s0: "\<forall>s \<in> set (snapshots (trace op)). snapOk s"
    and v0: "covered b i (length (items (config op))) (processedItems (opStatus op))"
  shows "config op' = config op \<and> opIdent op' = opIdent op \<and> countsOk op' \<and>
         (\<forall>s \<in> set (snapshots (trace op')). snapOk s) \<and>
         covered b i' (length (items (config op))) (processedItems (opStatus op')) \<and>
         status (opStatus op') = status (opStatus op)"
  using run c0 s0 v0
proof (induction n arbitrary: k i op)
  case 0
  then show ?case by simp
next
  case (Suc n)
  let ?n = "length (items (config op))"
  let ?batch = "jsSlice (items (config op)) i (i + b)"
  from Suc.prems(1) have lt: "i < int ?n" and nc: "\<not> cancelled op"
    by (auto split: if_splits)
  obtain x op1 where pb: "processBatch env k ?batch op = (x, op1)"
    by (cases "processBatch env k ?batch op") auto
  with Suc.prems(1) lt nc have x: "x = None"
    and nxt: "batchLoopFor env b n (Suc k) (i + b) (betweenBatches env b k i op1) = AtHead k' i' op'"
    by (auto split: option.splits)
  from pb x have pb': "processBatch env k ?batch op = (None, op1)" by simp
  from Suc.prems(4) lt have bound: "processedItems (opStatus op) + length ?batch \<le> ?n"
    and cov: "covered b (i + b) ?n (processedItems (opStatus op) + length ?batch)"
    using covered_step[of b i "items (config op)" "processedItems (opStatus op)"] by simp_all
  from Suc.prems(2) have tot: "totalItems (opStatus op) = ?n" by (simp add: countsOk_def)
  from processBatch_tallied[OF pb']
  have p1: "processedItems (opStatus op1) = processedItems (opStatus op) + length ?batch" by auto
  have c1: "countsOk op1" using processBatch_countsOk[OF pb'] Suc.prems(2) by simp
  have s1: "\<forall>s \<in> set (snapshots (trace op1)). snapOk s"
    using processBatch_snapshots[OF pb'] Suc.prems(2,3) bound tot by simp
  have cfg1: "config op1 = config op" using processBatch_frame(1)[OF pb'] .
  have k1: "snapOk (opStatus op1)"
    using c1 p1 bound cfg1 by (simp add: snapOk_def countsOk_def)
  have s2: "\<forall>s \<in> set (snapshots (trace (betweenBatches env b k i op1))). snapOk s"
    using betweenBatches_snapshots[of env b k i op1] s1 k1 by auto
  have c2: "countsOk (betweenBatches env b k i op1)" using c1 by simp
  have v2: "covered b (i + b) (length (items (config (betweenBatches env b k i op1))))
      (processedItems (opStatus (betweenBatches env b k i op1)))"
    using cov p1 cfg1 by simp
  from Suc.IH[OF nxt c2 s2 v2] cfg1 processBatch_frame(3,5)[OF pb'] show ?case by simp
qed

lemma executeFor_cases:
  obtains (inflight) k i op' where
      "batchLoopFor env (effectiveBatchSize (config op0)) n 0 0 (setStatus Running op0) = AtHead k i op'"
      "executeFor env n op0 = InFlight op'"
    | (settled) r op where "executeFor env n op0 = Settled r op" "execute env op0 = Some (r, op)"
proof (cases "executeFor env n op0")
  case (InFlight op')
  then obtain k i where
    "batchLoopFor env (effectiveBatchSize (config op0)) n 0 0 (setStatus Running op0) = AtHead k i op'"
    by (cases "batchLoopFor env (effectiveBatchSize (config op0)) n 0 0 (setStatus Running op0)")
       (auto simp: executeFor_def Let_def split: option.splits)
  from this InFlight show ?thesis by (rule inflight)
next
  case (Settled r op)
  from this executeFor_settled[OF this] show ?thesis by (rule settled)
qed

lemma executeFor_sound:
  fixes cfg :: "'d BulkOperationConfig"
  assumes R_def: "R = executeFor env n (newBulkOperation ident cfg)"
  shows "config (observed R) = cfg \<and>
    countsOk (observed R) \<and>
    (\<forall>s \<in> set (snapshots (trace (observed R))). snapOk s) \<and>
    snapOk (opStatus (observed R)) \<and>
    (inFlight R \<longrightarrow> status (opStatus (observed R)) = Running) \<and>
    (\<not> inFlight R \<longrightarrow>
           status (opStatus (observed R)) = Completed \<or>
           status (opStatus (observed R)) = Cancelled \<or>
           status (opStatus (observed R)) = Failed) \<and>
    (status (opStatus (observed R)) = Completed \<longrightarrow>
           processedItems (opStatus (observed R)) = length (items cfg)) \<and>
    (status (opStatus (observed R)) = Cancelled \<longrightarrow> cancelled (observed R)) \<and>
    (status (opStatus (observed R)) = Failed \<longrightarrow>
           (\<exists>t cb s. R = Settled (Inl t) (observed R) \<and>
              onProgress cfg = Some cb \<and> cb s = Some t))"
proof (cases rule: executeFor_cases[of env "newBulkOperation ident cfg" n])
  case (inflight k i op')
  have "countsOk (setStatus Running (newBulkOperation ident cfg))" by simp
  moreover have "\<forall>s \<in> set (snapshots (trace (setStatus Running (newBulkOperation ident cfg)))). snapOk s"
    by simp
  moreover have "covered (effectiveBatchSize (config (newBulkOperation ident cfg))) 0
      (length (items (config (setStatus Running (newBulkOperation ident cfg)))))
      (processedItems (opStatus (setStatus Running (newBulkOperation ident cfg))))" by simp
  ultimately have "config op' = config (setStatus Running (newBulkOperation ident cfg)) \<and>
      opIdent op' = opIdent (setStatus Running (newBulkOperation ident cfg)) \<and> countsOk op' \<and>
      (\<forall>s \<in> set (snapshots (trace op')). snapOk s) \<and>
      covered (effectiveBatchSize (config (newBulkOperation ident cfg))) i
        (length (items (config (setStatus Running (newBulkOperation ident cfg)))))
        (processedItems (opStatus op')) \<and>
      status (opStatus op') = status (opStatus (setStatus Running (newBulkOperation ident cfg)))"
    by (rule batchLoopFor_head[OF inflight(1)])
  then have h: "config op' = cfg" "countsOk op'" "\<forall>s \<in> set (snapshots (trace op')). snapOk s"
    "covered (effectiveBatchSize cfg) i (length (items cfg)) (processedItems (opStatus op'))"
    "status (opStatus op') = Running"
    by simp_all
  from covered_bound[OF h(4)] h(1,2) have k: "snapOk (opStatus op')"
    by (simp add: snapOk_def countsOk_def)
  have obs: "R = InFlight op'" using inflight(2) by (simp add: R_def)
  show ?thesis unfolding obs using h(1,2,3,5) k by simp
next
  case (settled r op)
  from run_sound[OF settled(2)] have a: "config op = cfg" "countsOk op"
    "\<forall>s \<in> set (snapshots (trace op)). snapOk s" "snapOk (opStatus op)"
    "status (opStatus op) = Completed \<longrightarrow> processedItems (opStatus op) = length (items cfg)"
    "\<forall>t. r = Inl t \<longrightarrow> status (opStatus op) = Failed \<and>
            (\<exists>cb s. onProgress cfg = Some cb \<and> cb s = Some t)"
    "\<forall>res. r = Inr res \<longrightarrow> (status (opStatus op) = Completed \<or> status (opStatus op) = Cancelled) \<and>
            (status (opStatus op) = Cancelled \<longleftrightarrow> cancelled op)"
    by blast+
  have fin: "status (opStatus op) = Completed \<or> status (opStatus op) = Cancelled \<or>
      status (opStatus op) = Failed"
    "status (opStatus op) = Cancelled \<longrightarrow> cancelled op"
    "status (opStatus op) = Failed \<longrightarrow>
      (\<exists>t cb s. Settled r op = Settled (Inl t) op \<and> onProgress cfg = Some cb \<and> cb s = Some t)"
  proof -
    show "status (opStatus op) = Completed \<or> status (opStatus op) = Cancelled \<or>
      status (opStatus op) = Failed"
      using a(6,7) by (cases r) blast+
    show "status (opStatus op) = Cancelled \<longrightarrow> cancelled op"
      using a(6,7) by (cases r) auto
    show "status (opStatus op) = Failed \<longrightarrow>
      (\<exists>t cb s. Settled r op = Settled (Inl t) op \<and> onProgress cfg = Some cb \<and> cb s = Some t)"
    proof (cases r)
      case (Inl t)
      with a(6) obtain cb s where "onProgress cfg = Some cb" "cb s = Some t" by blast
      with Inl show ?thesis by blast
    next
      case (Inr res)
      with a(7) show ?thesis by auto
    qed
  qed
  have obs: "R = Settled r op" using settled(1) by (simp add: R_def)
  have o: "observed (Settled r op) = op" "inFlight (Settled r op) = False" by simp_all
  show ?thesis unfolding obs o using a(1-5) fin by (intro conjI) (simp_all only: simp_thms)
qed

lemma execute_iff_settles:
  "execute env op0 = Some (r, op) \<longleftrightarrow> (\<exists>m. executeFor env m op0 = Settled r op)"
  using execute_settles executeFor_settled by blast

lemma settles_when_positive:
  assumes "0 < effectiveBatchSize (config op0)"
  shows "\<exists>m. \<not> inFlight (executeFor env m op0)"
proof -
  from execute_terminates[OF assms] obtain r op where "execute env op0 = Some (r, op)" by blast
  from execute_settles[OF this] obtain m where "executeFor env m op0 = Settled r op" by blast
  then have "\<not> inFlight (executeFor env m op0)" by simp
  then show ?thesis by (rule exI)
qed

text \<open>Claim C4 (consistent counts). Watched after any number of loop iterations, whether
  the run is still in flight or has settled, a bulk run satisfies
  \<open>successCount + failureCount = processedItems\<close> and
  \<open>processedItems \<le> totalItems\<close>, in every status seen by a progress callback or
  readable while the run was suspended and in its current status. A run in flight is
  running; a settled run is completed, cancelled or failed; it is cancelled only if cancel
  was requested, failed only if a progress callback threw, and completed only with
  \<open>processedItems = totalItems\<close>. \<open>execute\<close> returns exactly what the run settles
  with, and the run settles whenever \<open>batchSize\<close> is absent, zero or positive.\<close>
theorem C4_counts_consistent:
  "(let R = executeFor env n (newBulkOperation ident cfg) in
      (\<forall>s \<in> set (snapshots (trace (observed R))).
          successCount s + failureCount s = processedItems s \<and> processedItems s \<le> totalItems s) \<and>
      successCount (opStatus (observed R)) + failureCount (opStatus (observed R)) =
        processedItems (opStatus (observed R)) \<and>
      processedItems (opStatus (observed R)) \<le> totalItems (opStatus (observed R)) \<and>
      totalItems (opStatus (observed R)) = length (items cfg) \<and>
      (inFlight R \<longrightarrow> status (opStatus (observed R)) = Running) \<and>
      (\<not> inFlight R \<longrightarrow>
         status (opStatus (observed R)) = Completed \<or> status (opStatus (observed R)) = Cancelled \<or>
         status (opStatus (observed R)) = Failed) \<and>
      (status (opStatus (observed R)) = Completed \<longrightarrow>
         processedItems (opStatus (observed R)) = totalItems (opStatus (observed R))) \<and>
      (status (opStatus (observed R)) = Cancelled \<longrightarrow> cancelled (observed R)) \<and>
      (status (opStatus (observed R)) = Failed \<longrightarrow>
         (\<exists>t cb s. R = Settled (Inl t) (observed R) \<and> onProgress cfg = Some cb \<and> cb s = Some t))) \<and>
   (execute env (newBulkOperation ident cfg) = Some (r, op) \<longleftrightarrow>
      (\<exists>m. executeFor env m (newBulkOperation ident cfg) = Settled r op)) \<and>
   (batchSize cfg = None \<or> (\<exists>x. batchSize cfg = Some x \<and> 0 \<le> x) \<longrightarrow>
      (\<exists>m. \<not> inFlight (executeFor env m (newBulkOperation ident cfg))))"
proof -
  define R where "R = executeFor env n (newBulkOperation ident cfg)"
  from executeFor_sound[OF R_def] have a: "config (observed R) = cfg" "countsOk (observed R)"
    "\<forall>s \<in> set (snapshots (trace (observed R))). snapOk s" "snapOk (opStatus (observed R))"
    and b: "inFlight R \<longrightarrow> status (opStatus (observed R)) = Running"
    "\<not> inFlight R \<longrightarrow>
         status (opStatus (observed R)) = Completed \<or> status (opStatus (observed R)) = Cancelled \<or>
         status (opStatus (observed R)) = Failed"
    and c: "status (opStatus (observed R)) = Completed \<longrightarrow>
         processedItems (opStatus (observed R)) = length (items cfg)"
    and d: "status (opStatus (observed R)) = Cancelled \<longrightarrow> cancelled (observed R)"
    "status (opStatus (observed R)) = Failed \<longrightarrow>
         (\<exists>t cb s. R = Settled (Inl t) (observed R) \<and> onProgress cfg = Some cb \<and> cb s = Some t)"
    by blast+
  have tot: "totalItems (opStatus (observed R)) = length (items cfg)"
    using a(1,2) by (simp add: countsOk_def)
  have s: "\<forall>s \<in> set (snapshots (trace (observed R))).
          successCount s + failureCount s = processedItems s \<and> processedItems s \<le> totalItems s"
    using a(3) by (simp add: snapOk_def)
  have k: "successCount (opStatus (observed R)) + failureCount (opStatus (observed R)) =
        processedItems (opStatus (observed R))"
    "processedItems (opStatus (observed R)) \<le> totalItems (opStatus (observed R))"
    using a(4) by (simp_all add: snapOk_def)
  have c': "status (opStatus (observed R)) = Completed \<longrightarrow>
         processedItems (opStatus (observed R)) = totalItems (opStatus (observed R))"
    using c tot by simp
  have first: "(\<forall>s \<in> set (snapshots (trace (observed R))).
          successCount s + failureCount s = processedItems s \<and> processedItems s \<le> totalItems s) \<and>
      successCount (opStatus (observed R)) + failureCount (opStatus (observed R)) =
        processedItems (opStatus (observed R)) \<and>
      processedItems (opStatus (observed R)) \<le> totalItems (opStatus (observed R)) \<and>
      totalItems (opStatus (observed R)) = length (items cfg) \<and>
      (inFlight R \<longrightarrow> status (opStatus (observed R)) = Running) \<and>
      (\<not> inFlight R \<longrightarrow>
         status (opStatus (observed R)) = Completed \<or> status (opStatus (observed R)) = Cancelled \<or>
         status (opStatus (observed R)) = Failed) \<and>
      (status (opStatus (observed R)) = Completed \<longrightarrow>
         processedItems (opStatus (observed R)) = totalItems (opStatus (observed R))) \<and>
      (status (opStatus (observed R)) = Cancelled \<longrightarrow> cancelled (observed R)) \<and>
      (status (opStatus (observed R)) = Failed \<longrightarrow>
         (\<exists>t cb s. R = Settled (Inl t) (observed R) \<and> onProgress cfg = Some cb \<and> cb s = Some t))"
    using s k tot b c' d by (intro conjI)
  have second: "execute env (newBulkOperation ident cfg) = Some (r, op) \<longleftrightarrow>
      (\<exists>m. executeFor env m (newBulkOperation ident cfg) = Settled r op)"
    by (rule execute_iff_settles)
  have third: "batchSize cfg = None \<or> (\<exists>x. batchSize cfg = Some x \<and> 0 \<le> x) \<longrightarrow>
      (\<exists>m. \<not> inFlight (executeFor env m (newBulkOperation ident cfg)))"
  proof
    assume "batchSize cfg = None \<or> (\<exists>x. batchSize cfg = Some x \<and> 0 \<le> x)"
    then have "0 < effectiveBatchSize (config (newBulkOperation ident cfg))"
      using effectiveBatchSize_pos[of cfg] by simp
    then show "\<exists>m. \<not> inFlight (executeFor env m (newBulkOperation ident cfg))"
      by (rule settles_when_positive)
  qed
  show ?thesis unfolding Let_def using conjI[OF first conjI[OF second third]] unfolding R_def .
qed

lemma jsSlice_backwards: "i < 0 \<Longrightarrow> jsSlice xs i (i - 1) = []"
  by (simp add: jsSlice_def Let_def max_def)

lemma processBatch_empty:
  "processBatch env k [] op = (None, logEvents [Launched k [], Suspended (getStatus op), Joined k []] op)"
  by (simp add: processBatch_def enumerate_eq_zip)

lemma negative_stuck:
  assumes "i < 0" "config op = negative" "\<not> cancelled op"
  shows "\<exists>k' i' op'. batchLoopFor evenEnv (- 1) n k i op = AtHead k' i' op' \<and>
           opStatus op' = opStatus op \<and> \<not> cancelled op'"
  using assms
proof (induction n arbitrary: k i op)
  case 0
  then show ?case by simp
next
  case (Suc n)
  let ?op1 = "logEvents [Launched k [], Suspended (getStatus op), Joined k []] op"
  let ?op2 = "betweenBatches evenEnv (- 1) k i ?op1"
  have lt: "i < int (length (items (config op)))" using Suc.prems by (simp add: negative_def)
  have step: "batchLoopFor evenEnv (- 1) (Suc n) k i op = batchLoopFor evenEnv (- 1) n (Suc k) (i + - 1) ?op2"
    using lt Suc.prems(1,3) by (simp add: jsSlice_backwards processBatch_empty)
  have "i + - 1 < 0" "config ?op2 = negative" "\<not> cancelled ?op2"
    using Suc.prems by (simp_all add: evenEnv_def logEvents_def)
  from Suc.IH[OF this] obtain k' i' op' where
    "batchLoopFor evenEnv (- 1) n (Suc k) (i + - 1) ?op2 = AtHead k' i' op'"
    "opStatus op' = opStatus ?op2" "\<not> cancelled op'" by blast
  then have "batchLoopFor evenEnv (- 1) (Suc n) k i op = AtHead k' i' op' \<and>
      opStatus op' = opStatus op \<and> \<not> cancelled op'"
    unfolding step by (simp add: logEvents_def)
  then show ?case by blast
qed

lemma negative_in_flight:
  "\<exists>k i op. batchLoopFor evenEnv (- 1) n 0 0 (setStatus Running (newBulkOperation ident negative))
      = AtHead k i op"
proof (cases n)
  case 0
  then show ?thesis by simp
next
  case (Suc m)
  let ?op0 = "setStatus Running (newBulkOperation ident negative)"
  let ?batch = "jsSlice (items (config ?op0)) 0 (0 + - 1)"
  obtain x op1 where pb: "processBatch evenEnv 0 ?batch ?op0 = (x, op1)"
    by (cases "processBatch evenEnv 0 ?batch ?op0") auto
  have "fst (processBatch evenEnv 0 ?batch ?op0) = None"
    by (rule processBatch_quiet) (simp add: negative_def)
  with pb have x: "x = None" by simp
  have lt: "0 < int (length (items (config ?op0)))" by (simp add: negative_def)
  have step: "batchLoopFor evenEnv (- 1) (Suc m) 0 0 ?op0 =
      batchLoopFor evenEnv (- 1) m (Suc 0) (0 + - 1) (betweenBatches evenEnv (- 1) 0 0 op1)"
    using lt pb x by simp
  have "(0::int) + - 1 < 0" "config (betweenBatches evenEnv (- 1) 0 0 op1) = negative"
    "\<not> cancelled (betweenBatches evenEnv (- 1) 0 0 op1)"
    using processBatch_frame(1,2)[OF pb] by (simp_all add: evenEnv_def)
  from negative_stuck[OF this, of m "Suc 0"] step Suc show ?thesis by auto
qed

lemma negative_never_returns:
  "execute evenEnv (newBulkOperation ident negative) = None"
proof (cases "execute evenEnv (newBulkOperation ident negative)")
  case None
  then show ?thesis .
next
  case (Some y)
  then obtain e op' where
    "batchLoop evenEnv (effectiveBatchSize negative) 0 0 (setStatus Running (newBulkOperation ident negative))
       = Some (e, op')"
    by (auto simp: execute_def split: option.splits)
  from batchLoop_exits[OF this] obtain n where
    "batchLoopFor evenEnv (effectiveBatchSize negative) n 0 0 (setStatus Running (newBulkOperation ident negative))
       = Exited e op'" by blast
  moreover have "effectiveBatchSize negative = - 1" by (simp add: effectiveBatchSize_def negative_def)
  ultimately show ?thesis using negative_in_flight[of n ident] by simp
qed

text \<open>After its first iteration that run is in flight for ever, with the status it had then.\<close>

lemma negative_stays:
  "inFlight (executeFor evenEnv (Suc n) (newBulkOperation ident negative)) \<and>
   opStatus (observed (executeFor evenEnv (Suc n) (newBulkOperation ident negative))) =
     opStatus (observed (executeFor evenEnv (Suc 0) (newBulkOperation ident negative)))"
proof -
  let ?op0 = "setStatus Running (newBulkOperation ident negative)"
  let ?batch = "jsSlice (items (config ?op0)) 0 (0 + - 1)"
  have b: "effectiveBatchSize (config (newBulkOperation ident negative)) = - 1"
    by (simp add: effectiveBatchSize_def negative_def)
  obtain x op1 where pb: "processBatch evenEnv 0 ?batch ?op0 = (x, op1)"
    by (cases "processBatch evenEnv 0 ?batch ?op0") auto
  have "fst (processBatch evenEnv 0 ?batch ?op0) = None"
    by (rule processBatch_quiet) (simp add: negative_def)
  with pb have x: "x = None" by simp
  have lt: "0 < int (length (items (config ?op0)))" by (simp add: negative_def)
  let ?op2 = "betweenBatches evenEnv (- 1) 0 0 op1"
  have step: "batchLoopFor evenEnv (- 1) (Suc m) 0 0 ?op0 = batchLoopFor evenEnv (- 1) m (Suc 0) (0 + - 1) ?op2"
    for m using lt pb x by simp
  have pre: "(0::int) + - 1 < 0" "config ?op2 = negative" "\<not> cancelled ?op2"
    using processBatch_frame(1,2)[OF pb] by (simp_all add: evenEnv_def)
  from negative_stuck[OF pre, of n "Suc 0"] obtain k' i' op' where
    l: "batchLoopFor evenEnv (- 1) n (Suc 0) (0 + - 1) ?op2 = AtHead k' i' op'"
    and s: "opStatus op' = opStatus ?op2" by blast
  have one: "executeFor evenEnv (Suc 0) (newBulkOperation ident negative) = InFlight ?op2"
    unfolding executeFor_def b step by simp
  have more: "executeFor evenEnv (Suc n) (newBulkOperation ident negative) = InFlight op'"
    unfolding executeFor_def b step l by simp
  show ?thesis unfolding one more using s by simp
qed

text \<open>With \<open>batchSize\<close> \<open>-1\<close> and three items the run never returns: the first
  slice holds two items, every later slice is empty, and the run stays in flight with two of
  three items processed, although nobody cancels and nothing throws.\<close>
theorem C4_counterexample:
  "batchSize negative = Some (- 1) \<and>
   execute evenEnv (newBulkOperation ''bulk-op-5'' negative) = None \<and>
   inFlight (executeFor evenEnv 6 (newBulkOperation ''bulk-op-5'' negative)) \<and>
   processedItems (opStatus (observed (executeFor evenEnv 6 (newBulkOperation ''bulk-op-5'' negative)))) = 2 \<and>
   totalItems (opStatus (observed (executeFor evenEnv 6 (newBulkOperation ''bulk-op-5'' negative)))) = 3 \<and>
   status (opStatus (observed (executeFor evenEnv 6 (newBulkOperation ''bulk-op-5'' negative)))) = Running \<and>
   cancelled (observed (executeFor evenEnv 6 (newBulkOperation ''bulk-op-5'' negative))) = False"
proof -
  have a: "batchSize negative = Some (- 1)" by (simp add: negative_def)
  have b: "execute evenEnv (newBulkOperation ''bulk-op-5'' negative) = None"
    by (rule negative_never_returns)
  have c: "inFlight (executeFor evenEnv 6 (newBulkOperation ''bulk-op-5'' negative))" by code_simp
  have d: "processedItems (opStatus (observed (executeFor evenEnv 6 (newBulkOperation ''bulk-op-5'' negative)))) = 2"
    by code_simp
  have e: "totalItems (opStatus (observed (executeFor evenEnv 6 (newBulkOperation ''bulk-op-5'' negative)))) = 3"
    by code_simp
  have f: "status (opStatus (observed (executeFor evenEnv 6 (newBulkOperation ''bulk-op-5'' negative)))) = Running"
    by code_simp
  have g: "cancelled (observed (executeFor evenEnv 6 (newBulkOperation ''bulk-op-5'' negative))) = False"
    by code_simp
  from a b c d e f g show ?thesis by (intro conjI)
qed

text \<open>Instance of C4: twelve items in batches of five, watched after two iterations and
  after the run has settled.\<close>
theorem C4_witness:
  "inFlight (executeFor evenEnv 2 (newBulkOperation ''bulk-op-1'' twelve)) \<and>
   status (opStatus (observed (executeFor evenEnv 2 (newBulkOperation ''bulk-op-1'' twelve)))) = Running \<and>
   processedItems (opStatus (observed (executeFor evenEnv 2 (newBulkOperation ''bulk-op-1'' twelve)))) = 10 \<and>
   successCount (opStatus (observed (executeFor evenEnv 2 (newBulkOperation ''bulk-op-1'' twelve)))) +
     failureCount (opStatus (observed (executeFor evenEnv 2 (newBulkOperation ''bulk-op-1'' twelve)))) = 10 \<and>
   length (snapshots (trace (observed (executeFor evenEnv 4 (newBulkOperation ''bulk-op-1'' twelve))))) = 15 \<and>
   status (opStatus (observed (executeFor evenEnv 4 (newBulkOperation ''bulk-op-1'' twelve)))) = Completed \<and>
   processedItems (opStatus (observed (executeFor evenEnv 4 (newBulkOperation ''bulk-op-1'' twelve)))) = 12 \<and>
   totalItems (opStatus (observed (executeFor evenEnv 4 (newBulkOperation ''bulk-op-1'' twelve)))) = 12"
proof -
  let ?R2 = "executeFor evenEnv 2 (newBulkOperation ''bulk-op-1'' twelve)"
  let ?R4 = "executeFor evenEnv 4 (newBulkOperation ''bulk-op-1'' twelve)"
  have i2: "inFlight ?R2" by code_simp
  have p2: "processedItems (opStatus (observed ?R2)) = 10" by code_simp
  have s4: "status (opStatus (observed ?R4)) = Completed" by code_simp
  have n4: "length (snapshots (trace (observed ?R4))) = 15" by code_simp
  have len: "length (items twelve) = 12" by (simp add: twelve_def)
  note T2 = C4_counts_consistent[where env = evenEnv and n = 2 and ident = "''bulk-op-1''" and cfg = twelve,
      unfolded Let_def, THEN conjunct1]
  note T4 = C4_counts_consistent[where env = evenEnv and n = 4 and ident = "''bulk-op-1''" and cfg = twelve,
      unfolded Let_def, THEN conjunct1]
  from T2 i2 have r2: "status (opStatus (observed ?R2)) = Running" by blast
  from T2 p2 have c2: "successCount (opStatus (observed ?R2)) + failureCount (opStatus (observed ?R2)) = 10"
    by simp
  from T4 s4 len have p4: "processedItems (opStatus (observed ?R4)) = 12"
    "totalItems (opStatus (observed ?R4)) = 12" by simp_all
  from i2 r2 p2 c2 n4 s4 p4 show ?thesis by (intro conjI)
qed

lemma run_ends:
  assumes "execute env (newBulkOperation ident cfg) = Some (r, op)"
  shows "status (opStatus op) = Completed \<or>
         status (opStatus op) = Cancelled \<and> cancelled op \<or>
         status (opStatus op) = Failed \<and> (\<exists>t cb s. r = Inl t \<and> onProgress cfg = Some cb \<and> cb s = Some t)"
proof (cases r)
  case (Inl t)
  with run_sound[OF assms] have "status (opStatus op) = Failed"
    "\<exists>cb s. onProgress cfg = Some cb \<and> cb s = Some t" by blast+
  with Inl show ?thesis by blast
next
  case (Inr res)
  with run_sound[OF assms] have "status (opStatus op) = Completed \<or> status (opStatus op) = Cancelled"
    "status (opStatus op) = Cancelled \<longleftrightarrow> cancelled op" by blast+
  then show ?thesis by blast
qed

text \<open>Claim C5 (batch partition). For a positive effective batch size \<open>b\<close> and
  \<open>n\<close> items, the chunks of \<open>b\<close> consecutive items partition the item list into
  \<open>ceil (n / b)\<close> batches, each of size \<open>b\<close> except the last, of size
  \<open>n mod b\<close>, or \<open>b\<close> when \<open>b\<close> divides \<open>n\<close>. The run returns, and it
  has launched these batches in order, each as one slice of the item list: all of them when
  it completes, and fewer only when it is cancelled or a progress callback throws. Batch
  \<open>N + 1\<close> is launched only after batch \<open>N\<close> has been joined.\<close>
theorem C5_batch_partition:
  assumes "0 < effectiveBatchSize cfg"
  shows "concat (map (chunk (nat (effectiveBatchSize cfg)) (items cfg))
           [0..<batchCount (length (items cfg)) (nat (effectiveBatchSize cfg))]) = items cfg \<and>
         (\<forall>j < batchCount (length (items cfg)) (nat (effectiveBatchSize cfg)).
            length (chunk (nat (effectiveBatchSize cfg)) (items cfg) j) =
              (if Suc j < batchCount (length (items cfg)) (nat (effectiveBatchSize cfg))
               then nat (effectiveBatchSize cfg)
               else if length (items cfg) mod nat (effectiveBatchSize cfg) = 0
                    then nat (effectiveBatchSize cfg)
                    else length (items cfg) mod nat (effectiveBatchSize cfg))) \<and>
         (\<exists>r op. execute env (newBulkOperation ident cfg) = Some (r, op) \<and>
            (\<exists>m \<le> batchCount (length (items cfg)) (nat (effectiveBatchSize cfg)).
               launchedBatches (trace op) = map (chunk (nat (effectiveBatchSize cfg)) (items cfg)) [0..<m] \<and>
               batchMarks (trace op) = batchOrder m \<and>
               (status (opStatus op) = Completed \<longrightarrow>
                  m = batchCount (length (items cfg)) (nat (effectiveBatchSize cfg))) \<and>
               (m < batchCount (length (items cfg)) (nat (effectiveBatchSize cfg)) \<longrightarrow>
                  status (opStatus op) = Cancelled \<and> cancelled op \<or>
                  status (opStatus op) = Failed \<and>
                    (\<exists>t cb s. r = Inl t \<and> onProgress cfg = Some cb \<and> cb s = Some t))) \<and>
            (\<forall>N. Start (Suc N) \<in> set (batchMarks (trace op)) \<longrightarrow>
               (\<exists>pre post. batchMarks (trace op) = pre @ Start (Suc N) # post \<and> End N \<in> set pre)))"
proof -
  let ?B = "nat (effectiveBatchSize cfg)"
  let ?M = "batchCount (length (items cfg)) ?B"
  from execute_terminates[of "newBulkOperation ident cfg" env] assms
  obtain r op where run: "execute env (newBulkOperation ident cfg) = Some (r, op)" by auto
  from run_partition[OF assms run] have whole: "concat (map (chunk ?B (items cfg)) [0..<?M]) = items cfg"
    and sizes: "\<forall>j < ?M. length (chunk ?B (items cfg) j) =
      (if Suc j < ?M then ?B else if length (items cfg) mod ?B = 0 then ?B else length (items cfg) mod ?B)"
    and launched: "\<exists>m \<le> ?M. launchedBatches (trace op) = map (chunk ?B (items cfg)) [0..<m] \<and>
      batchMarks (trace op) = batchOrder m \<and> (status (opStatus op) = Completed \<longrightarrow> m = ?M)"
    and order: "\<forall>N. Start (Suc N) \<in> set (batchMarks (trace op)) \<longrightarrow>
      (\<exists>pre post. batchMarks (trace op) = pre @ Start (Suc N) # post \<and> End N \<in> set pre)"
    by blast+
  from launched obtain m where m: "m \<le> ?M"
    "launchedBatches (trace op) = map (chunk ?B (items cfg)) [0..<m]"
    "batchMarks (trace op) = batchOrder m" "status (opStatus op) = Completed \<longrightarrow> m = ?M"
    by blast
  have cut: "m < ?M \<longrightarrow>
      status (opStatus op) = Cancelled \<and> cancelled op \<or>
      status (opStatus op) = Failed \<and> (\<exists>t cb s. r = Inl t \<and> onProgress cfg = Some cb \<and> cb s = Some t)"
    using run_ends[OF run] m(4) by auto
  have "\<exists>m \<le> ?M. launchedBatches (trace op) = map (chunk ?B (items cfg)) [0..<m] \<and>
      batchMarks (trace op) = batchOrder m \<and> (status (opStatus op) = Completed \<longrightarrow> m = ?M) \<and>
      (m < ?M \<longrightarrow>
        status (opStatus op) = Cancelled \<and> cancelled op \<or>
        status (opStatus op) = Failed \<and> (\<exists>t cb s. r = Inl t \<and> onProgress cfg = Some cb \<and> cb s = Some t))"
    using m cut by (intro exI[of _ m]) simp
  with run order have "execute env (newBulkOperation ident cfg) = Some (r, op) \<and>
      (\<exists>m \<le> ?M. launchedBatches (trace op) = map (chunk ?B (items cfg)) [0..<m] \<and>
        batchMarks (trace op) = batchOrder m \<and> (status (opStatus op) = Completed \<longrightarrow> m = ?M) \<and>
        (m < ?M \<longrightarrow>
          status (opStatus op) = Cancelled \<and> cancelled op \<or>
          status (opStatus op) = Failed \<and> (\<exists>t cb s. r = Inl t \<and> onProgress cfg = Some cb \<and> cb s = Some t))) \<and>
      (\<forall>N. Start (Suc N) \<in> set (batchMarks (trace op)) \<longrightarrow>
        (\<exists>pre post. batchMarks (trace op) = pre @ Start (Suc N) # post \<and> End N \<in> set pre))"
    by (intro conjI)
  then have ex: "\<exists>r op. execute env (newBulkOperation ident cfg) = Some (r, op) \<and>
      (\<exists>m \<le> ?M. launchedBatches (trace op) = map (chunk ?B (items cfg)) [0..<m] \<and>
        batchMarks (trace op) = batchOrder m \<and> (status (opStatus op) = Completed \<longrightarrow> m = ?M) \<and>
        (m < ?M \<longrightarrow>
          status (opStatus op) = Cancelled \<and> cancelled op \<or>
          status (opStatus op) = Failed \<and> (\<exists>t cb s. r = Inl t \<and> onProgress cfg = Some cb \<and> cb s = Some t))) \<and>
      (\<forall>N. Start (Suc N) \<in> set (batchMarks (trace op)) \<longrightarrow>
        (\<exists>pre post. batchMarks (trace op) = pre @ Start (Suc N) # post \<and> End N \<in> set pre))"
    by (intro exI[of _ r] exI[of _ op])
  from whole sizes ex show ?thesis by (intro conjI)
qed

text \<open>Instance of C5: twelve items at batch size five give batches of sizes five, five
  and two, and at batch size four three batches of four.\<close>
theorem C5_witness:
  "0 < effectiveBatchSize twelve \<and>
   batchCount (length (items twelve)) (nat (effectiveBatchSize twelve)) = 3 \<and>
   (\<exists>r op. execute evenEnv (newBulkOperation ''bulk-op-1'' twelve) = Some (r, op) \<and>
      status (opStatus op) = Completed \<and>
      batchMarks (trace op) = [Start 0, End 0, Start 1, End 1, Start 2, End 2] \<and>
      map length (launchedBatches (trace op)) = [5, 5, 2] \<and>
      concat (launchedBatches (trace op)) = items twelve) \<and>
   0 < effectiveBatchSize fours \<and>
   (\<exists>r op. execute evenEnv (newBulkOperation ''bulk-op-6'' fours) = Some (r, op) \<and>
      status (opStatus op) = Completed \<and>
      map length (launchedBatches (trace op)) = [4, 4, 4])"
proof -
  have pos: "0 < effectiveBatchSize twelve" by (simp add: effectiveBatchSize_def twelve_def)
  have pos4: "0 < effectiveBatchSize fours" by (simp add: effectiveBatchSize_def twelve_def fours_def)
  have done5: "case execute evenEnv (newBulkOperation ''bulk-op-1'' twelve) of None \<Rightarrow> False
     | Some (r, op) \<Rightarrow> status (opStatus op) = Completed"
    by code_simp
  have done4: "case execute evenEnv (newBulkOperation ''bulk-op-6'' fours) of None \<Rightarrow> False
     | Some (r, op) \<Rightarrow> status (opStatus op) = Completed"
    by code_simp
  have B: "nat (effectiveBatchSize twelve) = 5" "length (items twelve) = 12"
    by (simp_all add: effectiveBatchSize_def twelve_def)
  have B4: "nat (effectiveBatchSize fours) = 4" "length (items fours) = 12"
    "items fours = items twelve"
    by (simp_all add: effectiveBatchSize_def twelve_def fours_def)
  have M: "batchCount 12 5 = 3" "batchCount 12 4 = 3" by (simp_all add: batchCount_def)
  have up: "[0..<3] = [0, 1, 2]" by (simp add: upt_rec)
  from C5_batch_partition[OF pos, of evenEnv "''bulk-op-1''"] obtain r op m where
    run: "execute evenEnv (newBulkOperation ''bulk-op-1'' twelve) = Some (r, op)"
    and m: "launchedBatches (trace op) = map (chunk 5 (items twelve)) [0..<m]"
      "batchMarks (trace op) = batchOrder m" "status (opStatus op) = Completed \<longrightarrow> m = 3"
    and whole: "concat (map (chunk 5 (items twelve)) [0..<3]) = items twelve"
    unfolding B M by blast
  from done5 run have st: "status (opStatus op) = Completed" by simp
  with m(3) have m3: "m = 3" by simp
  from m(1,2) m3 up have a: "batchMarks (trace op) = [Start 0, End 0, Start 1, End 1, Start 2, End 2]"
    "map length (launchedBatches (trace op)) = [5, 5, 2]"
    by (simp_all add: batchOrder_def chunk_def twelve_def)
  have c: "concat (launchedBatches (trace op)) = items twelve" using m(1) m3 whole by simp
  from run st a c have "execute evenEnv (newBulkOperation ''bulk-op-1'' twelve) = Some (r, op) \<and>
      status (opStatus op) = Completed \<and>
      batchMarks (trace op) = [Start 0, End 0, Start 1, End 1, Start 2, End 2] \<and>
      map length (launchedBatches (trace op)) = [5, 5, 2] \<and>
      concat (launchedBatches (trace op)) = items twelve"
    by (intro conjI)
  then have ex5: "\<exists>r op. execute evenEnv (newBulkOperation ''bulk-op-1'' twelve) = Some (r, op) \<and>
      status (opStatus op) = Completed \<and>
      batchMarks (trace op) = [Start 0, End 0, Start 1, End 1, Start 2, End 2] \<and>
      map length (launchedBatches (trace op)) = [5, 5, 2] \<and>
      concat (launchedBatches (trace op)) = items twelve"
    by (intro exI[of _ r] exI[of _ op])
  from C5_batch_partition[OF pos4, of evenEnv "''bulk-op-6''"] obtain r4 op4 m4 where
    run4: "execute evenEnv (newBulkOperation ''bulk-op-6'' fours) = Some (r4, op4)"
    and m4: "launchedBatches (trace op4) = map (chunk 4 (items twelve)) [0..<m4]"
      "status (opStatus op4) = Completed \<longrightarrow> m4 = 3"
    unfolding B4 B M by blast
  from done4 run4 have st4: "status (opStatus op4) = Completed" by simp
  with m4(2) have "m4 = 3" by simp
  with m4(1) up have "map length (launchedBatches (trace op4)) = [4, 4, 4]"
    by (simp add: chunk_def twelve_def)
  with run4 st4 have "execute evenEnv (newBulkOperation ''bulk-op-6'' fours) = Some (r4, op4) \<and>
      status (opStatus op4) = Completed \<and> map length (launchedBatches (trace op4)) = [4, 4, 4]"
    by (intro conjI)
  then have ex4: "\<exists>r op. execute evenEnv (newBulkOperation ''bulk-op-6'' fours) = Some (r, op) \<and>
      status (opStatus op) = Completed \<and> map length (launchedBatches (trace op)) = [4, 4, 4]"
    by (intro exI[of _ r4] exI[of _ op4])
  have M': "batchCount (length (items twelve)) (nat (effectiveBatchSize twelve)) = 3"
    unfolding B by (rule M(1))
  from pos M' ex5 pos4 ex4 show ?thesis by (intro conjI)
qed

text \<open>Twelve items at batch size five, cancelled during the first batch: one batch is
  launched, not three. Three items at batch size \<open>-1\<close>: the slices are the first two
  items and then empty ones, without end.\<close>
theorem C5_counterexample:
  "effectiveBatchSize twelve = 5 \<and>
   batchCount (length (items twelve)) 5 = 3 \<and>
   map_option (status \<circ> opStatus \<circ> snd) (execute cancelEnv (newBulkOperation ''bulk-op-4'' twelve))
     = Some Cancelled \<and>
   map_option (launchedBatches \<circ> trace \<circ> snd) (execute cancelEnv (newBulkOperation ''bulk-op-4'' twelve))
     = Some [[0, 1, 2, 3, 4]] \<and>
   effectiveBatchSize negative = - 1 \<and>
   execute evenEnv (newBulkOperation ''bulk-op-5'' negative) = None \<and>
   launchedBatches (trace (observed (executeFor evenEnv 4 (newBulkOperation ''bulk-op-5'' negative))))
     = [[0, 1], [], [], []]"
proof -
  have a: "effectiveBatchSize twelve = 5" by (simp add: effectiveBatchSize_def twelve_def)
  have b: "batchCount (length (items twelve)) 5 = 3" by (simp add: batchCount_def twelve_def)
  have c: "map_option (status \<circ> opStatus \<circ> snd) (execute cancelEnv (newBulkOperation ''bulk-op-4'' twelve))
     = Some Cancelled" by code_simp
  have d: "map_option (launchedBatches \<circ> trace \<circ> snd) (execute cancelEnv (newBulkOperation ''bulk-op-4'' twelve))
     = Some [[0, 1, 2, 3, 4]]" by code_simp
  have e: "effectiveBatchSize negative = - 1" by (simp add: effectiveBatchSize_def negative_def)
  have f: "execute evenEnv (newBulkOperation ''bulk-op-5'' negative) = None"
    by (rule negative_never_returns)
  have g: "launchedBatches (trace (observed (executeFor evenEnv 4 (newBulkOperation ''bulk-op-5'' negative))))
     = [[0, 1], [], [], []]" by code_simp
  from a b c d e f g show ?thesis by (intro conjI)
qed

lemma chunk_nonempty:
  fixes B m j :: nat
  assumes "0 < B" "m = 0 \<or> (m - 1) * B < length xs" "j < m"
  shows "chunk B xs j \<noteq> []"
proof -
  from assms(3) have "j \<le> m - 1" by simp
  then have le: "j * B \<le> (m - 1) * B" by (rule mult_le_mono1)
  from assms(2,3) have "(m - 1) * B < length xs" by auto
  with le have "j * B < length xs" by (rule le_less_trans)
  with assms(1) show ?thesis by (simp add: chunk_def)
qed

lemma undisturbed_run:
  assumes run: "execute env (newBulkOperation ident cfg) = Some (r, op)"
    and nc: "\<forall>k. \<not> cancelDuring env k"
    and quiet: "\<forall>cb s. onProgress cfg = Some cb \<longrightarrow> cb s = None"
  shows "\<exists>res. r = Inr res \<and> status (opStatus op) = Completed \<and>
           processedItems (opStatus op) = length (items cfg) \<and>
           length (bulkResults res) = length (items cfg)"
  using run
proof (cases rule: execute_cases)
  case (failed t op')
  from batchLoop_undisturbed[OF failed(1)] nc quiet show ?thesis by simp
next
  case (returned op')
  from batchLoop_undisturbed[OF returned(1)] nc quiet have "\<not> cancelled op'" by simp
  with returned(2) have st: "status (opStatus op) = Completed" by simp
  from run_sound[OF run] st have "processedItems (opStatus op) = length (items cfg)" "countsOk op"
    by blast+
  with st returned(3) show ?thesis by (simp add: countsOk_def)
qed

text \<open>Claim C10 (falsy batch size). An absent or zero \<open>batchSize\<close> gives the
  effective batch size five. For an absent, zero or positive \<open>batchSize\<close> the effective
  batch size is positive and \<open>execute\<close> terminates; no batch it launched is empty, and
  the batches are consecutive chunks of the item list, so that the loop advances. The run
  ends completed with all items processed, or cancelled after a cancel request, or failed
  because a progress callback threw; when nobody cancels and no progress callback throws it
  returns a result with all items processed.\<close>
theorem C10_falsy_batch_size_terminates:
  assumes "batchSize cfg = None \<or> (\<exists>x. batchSize cfg = Some x \<and> 0 \<le> x)"
  shows "(batchSize cfg = None \<or> batchSize cfg = Some 0 \<longrightarrow> effectiveBatchSize cfg = 5) \<and>
         0 < effectiveBatchSize cfg \<and>
         (\<exists>r op. execute env (newBulkOperation ident cfg) = Some (r, op) \<and>
            (\<forall>batch \<in> set (launchedBatches (trace op)). batch \<noteq> []) \<and>
            (\<exists>m. launchedBatches (trace op) =
                    map (chunk (nat (effectiveBatchSize cfg)) (items cfg)) [0..<m]) \<and>
            (status (opStatus op) = Completed \<longrightarrow>
               processedItems (opStatus op) = length (items cfg) \<and>
               concat (launchedBatches (trace op)) = items cfg) \<and>
            (status (opStatus op) = Completed \<or>
             status (opStatus op) = Cancelled \<and> cancelled op \<or>
             status (opStatus op) = Failed \<and>
               (\<exists>t cb s. r = Inl t \<and> onProgress cfg = Some cb \<and> cb s = Some t)) \<and>
            ((\<forall>k. \<not> cancelDuring env k) \<and> (\<forall>cb s. onProgress cfg = Some cb \<longrightarrow> cb s = None) \<longrightarrow>
               (\<exists>res. r = Inr res \<and> status (opStatus op) = Completed \<and>
                  processedItems (opStatus op) = length (items cfg) \<and>
                  length (bulkResults res) = length (items cfg))))"
proof -
  let ?B = "nat (effectiveBatchSize cfg)"
  let ?M = "batchCount (length (items cfg)) ?B"
  have five: "batchSize cfg = None \<or> batchSize cfg = Some 0 \<longrightarrow> effectiveBatchSize cfg = 5"
    by (auto simp: effectiveBatchSize_def)
  have pos: "0 < effectiveBatchSize cfg" using assms by (rule effectiveBatchSize_pos)
  then have B: "0 < ?B" by simp
  from execute_terminates[of "newBulkOperation ident cfg" env] pos
  obtain r op where run: "execute env (newBulkOperation ident cfg) = Some (r, op)" by auto
  from run_partition[OF pos run] obtain m where m: "m \<le> ?M"
    "launchedBatches (trace op) = map (chunk ?B (items cfg)) [0..<m]"
    "status (opStatus op) = Completed \<longrightarrow> m = ?M"
    and whole: "concat (map (chunk ?B (items cfg)) [0..<?M]) = items cfg"
    by blast
  have tight: "m = 0 \<or> (m - 1) * ?B < length (items cfg)"
  proof (cases "m = 0")
    case True
    then show ?thesis by simp
  next
    case False
    from batchCount_tight[OF B, of "length (items cfg)"] False m(1)
    have t: "(?M - 1) * ?B < length (items cfg)" by auto
    from m(1) have "m - 1 \<le> ?M - 1" by simp
    then have "(m - 1) * ?B \<le> (?M - 1) * ?B" by (rule mult_le_mono1)
    from this t have "(m - 1) * ?B < length (items cfg)" by (rule le_less_trans)
    then show ?thesis by (rule disjI2)
  qed
  have nonempty: "\<forall>batch \<in> set (launchedBatches (trace op)). batch \<noteq> []"
    unfolding m(2) using chunk_nonempty[OF B tight] by auto
  have slices: "\<exists>m. launchedBatches (trace op) = map (chunk ?B (items cfg)) [0..<m]"
    using m(2) by (rule exI)
  have complete: "status (opStatus op) = Completed \<longrightarrow>
      processedItems (opStatus op) = length (items cfg) \<and>
      concat (launchedBatches (trace op)) = items cfg"
    using run_sound[OF run] m(2,3) whole by auto
  have ends: "status (opStatus op) = Completed \<or>
      status (opStatus op) = Cancelled \<and> cancelled op \<or>
      status (opStatus op) = Failed \<and> (\<exists>t cb s. r = Inl t \<and> onProgress cfg = Some cb \<and> cb s = Some t)"
    using run by (rule run_ends)
  have calm: "(\<forall>k. \<not> cancelDuring env k) \<and> (\<forall>cb s. onProgress cfg = Some cb \<longrightarrow> cb s = None) \<longrightarrow>
      (\<exists>res. r = Inr res \<and> status (opStatus op) = Completed \<and>
         processedItems (opStatus op) = length (items cfg) \<and>
         length (bulkResults res) = length (items cfg))"
    using undisturbed_run[OF run] by blast
  from run nonempty slices complete ends calm
  have "execute env (newBulkOperation ident cfg) = Some (r, op) \<and>
      (\<forall>batch \<in> set (launchedBatches (trace op)). batch \<noteq> []) \<and>
      (\<exists>m. launchedBatches (trace op) = map (chunk ?B (items cfg)) [0..<m]) \<and>
      (status (opStatus op) = Completed \<longrightarrow>
         processedItems (opStatus op) = length (items cfg) \<and>
         concat (launchedBatches (trace op)) = items cfg) \<and>
      (status (opStatus op) = Completed \<or>
       status (opStatus op) = Cancelled \<and> cancelled op \<or>
       status (opStatus op) = Failed \<and>
         (\<exists>t cb s. r = Inl t \<and> onProgress cfg = Some cb \<and> cb s = Some t)) \<and>
      ((\<forall>k. \<not> cancelDuring env k) \<and> (\<forall>cb s. onProgress cfg = Some cb \<longrightarrow> cb s = None) \<longrightarrow>
         (\<exists>res. r = Inr res \<and> status (opStatus op) = Completed \<and>
            processedItems (opStatus op) = length (items cfg) \<and>
            length (bulkResults res) = length (items cfg)))"
    by (intro conjI)
  then have ex: "\<exists>r op. execute env (newBulkOperation ident cfg) = Some (r, op) \<and>
      (\<forall>batch \<in> set (launchedBatches (trace op)). batch \<noteq> []) \<and>
      (\<exists>m. launchedBatches (trace op) = map (chunk ?B (items cfg)) [0..<m]) \<and>
      (status (opStatus op) = Completed \<longrightarrow>
         processedItems (opStatus op) = length (items cfg) \<and>
         concat (launchedBatches (trace op)) = items cfg) \<and>
      (status (opStatus op) = Completed \<or>
       status (opStatus op) = Cancelled \<and> cancelled op \<or>
       status (opStatus op) = Failed \<and>
         (\<exists>t cb s. r = Inl t \<and> onProgress cfg = Some cb \<and> cb s = Some t)) \<and>
      ((\<forall>k. \<not> cancelDuring env k) \<and> (\<forall>cb s. onProgress cfg = Some cb \<longrightarrow> cb s = None) \<longrightarrow>
         (\<exists>res. r = Inr res \<and> status (opStatus op) = Completed \<and>
            processedItems (opStatus op) = length (items cfg) \<and>
            length (bulkResults res) = length (items cfg)))"
    by (intro exI[of _ r] exI[of _ op])
  from five pos ex show ?thesis by (intro conjI)
qed

text \<open>Instance of C10: twelve items with \<open>batchSize\<close> zero.\<close>
theorem C10_witness:
  "batchSize zeroBatch = Some 0 \<and> effectiveBatchSize zeroBatch = 5 \<and>
   (\<exists>res op. execute evenEnv (newBulkOperation ''bulk-op-2'' zeroBatch) = Some (Inr res, op) \<and>
      status (opStatus op) = Completed \<and> processedItems (opStatus op) = 12 \<and>
      length (bulkResults res) = 12 \<and>
      map length (launchedBatches (trace op)) = [5, 5, 2])"
proof -
  have z: "batchSize zeroBatch = Some 0" by (simp add: zeroBatch_def)
  then have h: "batchSize zeroBatch = None \<or> (\<exists>x. batchSize zeroBatch = Some x \<and> 0 \<le> x)" by simp
  have nc: "\<forall>k. \<not> cancelDuring evenEnv k" by (simp add: evenEnv_def)
  have q: "\<forall>cb s. onProgress zeroBatch = Some cb \<longrightarrow> cb s = None"
    by (simp add: zeroBatch_def twelve_def)
  have len: "length (items zeroBatch) = 12" by (simp add: zeroBatch_def twelve_def)
  have sizes: "case execute evenEnv (newBulkOperation ''bulk-op-2'' zeroBatch) of None \<Rightarrow> False
     | Some (r, op) \<Rightarrow> map length (launchedBatches (trace op)) = [5, 5, 2]"
    by code_simp
  note T = C10_falsy_batch_size_terminates[OF h, of evenEnv "''bulk-op-2''"]
  from T[THEN conjunct1] z have five: "effectiveBatchSize zeroBatch = 5" by simp
  from T[THEN conjunct2, THEN conjunct2] obtain r op where
    A: "execute evenEnv (newBulkOperation ''bulk-op-2'' zeroBatch) = Some (r, op) \<and>
      (\<forall>batch \<in> set (launchedBatches (trace op)). batch \<noteq> []) \<and>
      (\<exists>m. launchedBatches (trace op) =
              map (chunk (nat (effectiveBatchSize zeroBatch)) (items zeroBatch)) [0..<m]) \<and>
      (status (opStatus op) = Completed \<longrightarrow>
         processedItems (opStatus op) = length (items zeroBatch) \<and>
         concat (launchedBatches (trace op)) = items zeroBatch) \<and>
      (status (opStatus op) = Completed \<or>
       status (opStatus op) = Cancelled \<and> cancelled op \<or>
       status (opStatus op) = Failed \<and>
         (\<exists>t cb s. r = Inl t \<and> onProgress zeroBatch = Some cb \<and> cb s = Some t)) \<and>
      ((\<forall>k. \<not> cancelDuring evenEnv k) \<and> (\<forall>cb s. onProgress zeroBatch = Some cb \<longrightarrow> cb s = None) \<longrightarrow>
         (\<exists>res. r = Inr res \<and> status (opStatus op) = Completed \<and>
            processedItems (opStatus op) = length (items zeroBatch) \<and>
            length (bulkResults res) = length (items zeroBatch)))"
    by (elim exE)
  from A have run: "execute evenEnv (newBulkOperation ''bulk-op-2'' zeroBatch) = Some (r, op)"
    by (rule conjunct1)
  from A have calm: "(\<forall>k. \<not> cancelDuring evenEnv k) \<and> (\<forall>cb s. onProgress zeroBatch = Some cb \<longrightarrow> cb s = None) \<longrightarrow>
         (\<exists>res. r = Inr res \<and> status (opStatus op) = Completed \<and>
            processedItems (opStatus op) = length (items zeroBatch) \<and>
            length (bulkResults res) = length (items zeroBatch))"
    by (elim conjE)
  from calm nc q have "\<exists>res. r = Inr res \<and> status (opStatus op) = Completed \<and>
            processedItems (opStatus op) = length (items zeroBatch) \<and>
            length (bulkResults res) = length (items zeroBatch)"
    by (elim impE) (rule conjI)
  then obtain res where res: "r = Inr res" "status (opStatus op) = Completed"
    "processedItems (opStatus op) = 12" "length (bulkResults res) = 12"
    unfolding len by (elim exE conjE)
  from sizes run have sz: "map length (launchedBatches (trace op)) = [5, 5, 2]" by simp
  from run res sz have "execute evenEnv (newBulkOperation ''bulk-op-2'' zeroBatch) = Some (Inr res, op) \<and>
      status (opStatus op) = Completed \<and> processedItems (opStatus op) = 12 \<and>
      length (bulkResults res) = 12 \<and> map length (launchedBatches (trace op)) = [5, 5, 2]"
    by simp
  then have "\<exists>res op. execute evenEnv (newBulkOperation ''bulk-op-2'' zeroBatch) = Some (Inr res, op) \<and>
      status (opStatus op) = Completed \<and> processedItems (opStatus op) = 12 \<and>
      length (bulkResults res) = 12 \<and> map length (launchedBatches (trace op)) = [5, 5, 2]"
    by (intro exI[of _ res] exI[of _ op])
  with z five show ?thesis by (intro conjI)
qed

lemma failed_quiet_run:
  "execute quietEnv (newBulkOperation ''bulk-op-3'' throwing) =
     Some (Inl (JsError ''progress handler failed''), failedOp)"
  by (simp add: bulk_eval batchLoop.simps quietEnv_def throwing_def failedOp_def okResult_def)

text \<open>Two items with no \<open>batchSize\<close>, both operations fulfilled, nobody
  cancelling: the progress callback throws after the first item, and the run ends failed with
  one of two items processed.\<close>
theorem C10_counterexample:
  "batchSize throwing = None \<and> effectiveBatchSize throwing = 5 \<and>
   cancelDuring quietEnv 0 = False \<and>
   invoke quietEnv 0 ''synchronizeCatalog'' 0 = Fulfilled okResult \<and>
   invoke quietEnv 1 ''synchronizeCatalog'' 1 = Fulfilled okResult \<and>
   execute quietEnv (newBulkOperation ''bulk-op-3'' throwing) =
     Some (Inl (JsError ''progress handler failed''), failedOp) \<and>
   status (opStatus failedOp) = Failed \<and>
   processedItems (opStatus failedOp) = 1 \<and>
   length (items throwing) = 2"
proof -
  have a: "batchSize throwing = None" "effectiveBatchSize throwing = 5" "length (items throwing) = 2"
    by (simp_all add: throwing_def effectiveBatchSize_def)
  have b: "cancelDuring quietEnv 0 = False"
    "invoke quietEnv 0 ''synchronizeCatalog'' 0 = Fulfilled okResult"
    "invoke quietEnv 1 ''synchronizeCatalog'' 1 = Fulfilled okResult"
    by (simp_all add: quietEnv_def)
  have c: "status (opStatus failedOp) = Failed" "processedItems (opStatus failedOp) = 1"
    by (simp_all add: failedOp_def)
  from a b failed_quiet_run c show ?thesis by simp
qed


lemma mock_names [simp]:
  "replaceFirst ''mock-'' [] ''mock-seo'' = ''seo''"
  "replaceFirst ''mock-'' [] ''mock-navigation'' = ''navigation''"
  "replaceFirst ''mock-'' [] ''mock-catalog'' = ''catalog''"
  by (simp_all add: startsWith_def)

lemma createMockAgent_Some:
  assumes "ty = ''mock-seo'' \<or> ty = ''mock-navigation'' \<or> ty = ''mock-catalog''"
  shows "\<exists>a. createMockAgent ty f = (Some a, f\<lparr>allocated := allocated f + 3\<rparr>) \<and> ready a \<and>
            instType a = ty \<and> allocated f \<le> objId (instanceObj a) \<and> objId (instanceObj a) < allocated f + 3 \<and>
            hasDestroy (instanceObj a)"
  using assms by (elim disjE) (simp_all add: createMockAgent_def createMockAgents_def startsWith_def)

lemma createAgent_fails:
  "\<not> creatable env ty (pageType f) \<Longrightarrow> \<exists>e. createAgent env ty f = (Inl e, f)"
  by (simp add: creatable_def createAgent_def construct_def)

lemma mock_created:
  assumes mock: "ty = ''mock-seo'' \<or> ty = ''mock-navigation'' \<or> ty = ''mock-catalog''"
  shows "\<exists>a f'. createAgent env ty f = (Inr (Some a), f') \<and> ready a \<and> instType a = ty \<and>
           allocated f \<le> objId (instanceObj a) \<and> objId (instanceObj a) < allocated f' \<and>
           pageType f' = pageType f \<and> agents f' = agents f \<and> effects f' = effects f"
proof -
  from createMockAgent_Some[OF mock, of f] obtain a where
    a: "createMockAgent ty f = (Some a, f\<lparr>allocated := allocated f + 3\<rparr>)" "ready a" "instType a = ty"
      "allocated f \<le> objId (instanceObj a)" "objId (instanceObj a) < allocated f + 3"
    by blast
  have "createAgent env ty f = (Inr (Some a), f\<lparr>allocated := allocated f + 3\<rparr>)"
    using mock a(1) by (elim disjE) (simp_all add: createAgent_def)
  with a(2-) show ?thesis by (intro exI[of _ a] exI[of _ "f\<lparr>allocated := allocated f + 3\<rparr>"]) simp
qed

lemma createAgent_succeeds:
  assumes "creatable env ty (pageType f)"
  shows "\<exists>a f'. createAgent env ty f = (Inr (Some a), f') \<and> ready a \<and> instType a = ty \<and>
           allocated f \<le> objId (instanceObj a) \<and> objId (instanceObj a) < allocated f' \<and>
           pageType f' = pageType f \<and> agents f' = agents f \<and> effects f' = effects f"
  using assms unfolding creatable_def
proof (elim disjE conjE)
  assume seo: "ty = ''seo''" "isValidForSEO (pageType f)" "\<not> constructorThrows env ''SquareSEOAgentEnhanced''"
  let ?f' = "f\<lparr>allocated := allocated f + 1\<rparr>"
  let ?a = "\<lparr>instType = ty, enhanced = True,
      instanceObj = \<lparr>objId = allocated f, className = ''SquareSEOAgentEnhanced'', hasDestroy = True\<rparr>,
      capabilities = [''Real DOM SEO optimization'', ''Form validation and submission'',
        ''Content generation and optimization'', ''Bulk SEO operations'',
        ''Screenshot capture for debugging''],
      ready = True\<rparr>"
  have "createAgent env ty f = (Inr (Some ?a), ?f')"
    unfolding createAgent_def construct_def using seo by simp
  then show ?thesis by (intro exI[of _ ?a] exI[of _ ?f']) simp
next
  assume nav: "ty = ''navigation''" "isValidForNavigation env (pageType f)"
      "\<not> constructorThrows env ''SquareNavigationAgentEnhanced''"
  let ?f' = "f\<lparr>allocated := allocated f + 1\<rparr>"
  let ?a = "\<lparr>instType = ty, enhanced = True,
      instanceObj = \<lparr>objId = allocated f, className = ''SquareNavigationAgentEnhanced'', hasDestroy = True\<rparr>,
      capabilities = [''Advanced page navigation'', ''URL management and validation'',
        ''Search functionality with filters'', ''Page load validation'', ''SPA routing handling''],
      ready = True\<rparr>"
  have "createAgent env ty f = (Inr (Some ?a), ?f')"
    unfolding createAgent_def construct_def using nav by simp
  then show ?thesis by (intro exI[of _ ?a] exI[of _ ?f']) simp
next
  assume cat: "ty = ''catalog''" "isValidForCatalog (pageType f)"
      "\<not> constructorThrows env ''SquareCatalogAgentEnhanced''"
  let ?f' = "f\<lparr>allocated := allocated f + 1\<rparr>"
  let ?a = "\<lparr>instType = ty, enhanced = True,
      instanceObj = \<lparr>objId = allocated f, className = ''SquareCatalogAgentEnhanced'',
        hasDestroy = catalogHasDestroy env\<rparr>,
      capabilities = [''Comprehensive catalog synchronization'',
        ''Inventory management and updates'', ''Bulk pricing operations'',
        ''Data extraction and validation'', ''Batch processing capabilities''],
      ready = True\<rparr>"
  have "createAgent env ty f = (Inr (Some ?a), ?f')"
    unfolding createAgent_def construct_def using cat by simp
  then show ?thesis by (intro exI[of _ ?a] exI[of _ ?f']) simp
next
  assume "ty = ''mock-seo''"
  then show ?thesis by (rule mock_created[OF disjI1])
next
  assume "ty = ''mock-navigation''"
  then show ?thesis by (rule mock_created[OF disjI2, OF disjI1])
next
  assume "ty = ''mock-catalog''"
  then show ?thesis by (rule mock_created[OF disjI2, OF disjI2])
qed

lemma createAgent_total:
  obtains (fails) e where "\<not> creatable env ty (pageType f)" "createAgent env ty f = (Inl e, f)"
    | (succeeds) a f' where "creatable env ty (pageType f)" "createAgent env ty f = (Inr (Some a), f')"
        "ready a" "instType a = ty" "allocated f \<le> objId (instanceObj a)"
        "objId (instanceObj a) < allocated f'" "pageType f' = pageType f" "agents f' = agents f"
        "effects f' = effects f"
proof (cases "creatable env ty (pageType f)")
  case True
  from createAgent_succeeds[OF True] True succeeds show ?thesis by blast
next
  case False
  from createAgent_fails[OF False] False fails show ?thesis by blast
qed

lemma startsWith_mock [simp]: "startsWith (''mock-'' @ ty) ''mock-''"
  by (simp add: startsWith_def)

lemma cacheKey_mock_neq [simp]: "cacheKey (''mock-'' @ ty) p \<noteq> cacheKey ty p"
proof
  assume "cacheKey (''mock-'' @ ty) p = cacheKey ty p"
  then have "length (cacheKey (''mock-'' @ ty) p) = length (cacheKey ty p)" by simp
  then show False by (simp add: cacheKey_def)
qed

lemma getAgent_hit:
  "cachedReady f (cacheKey ty (pageType f)) force = Some a \<Longrightarrow> getAgent env ty force f = (Some a, f)"
  by (subst getAgent.simps) simp

lemma getAgent_created:
  "cachedReady f (cacheKey ty (pageType f)) force = None \<Longrightarrow>
   createAgent env ty f = (Inr (Some a), f') \<Longrightarrow>
   getAgent env ty force f =
     (Some a, f'\<lparr>agents := AList.update (cacheKey ty (pageType f')) a (agents f')\<rparr>)"
  by (subst getAgent.simps) simp

lemma getAgent_fallback:
  "cachedReady f (cacheKey ty (pageType f)) force = None \<Longrightarrow>
   createAgent env ty f = (Inl e, f') \<Longrightarrow> \<not> startsWith ty ''mock-'' \<Longrightarrow>
   getAgent env ty force f = getAgent env (''mock-'' @ ty) False f'"
  by (subst getAgent.simps) simp

lemma getAgent_null:
  "cachedReady f (cacheKey ty (pageType f)) force = None \<Longrightarrow>
   createAgent env ty f = (Inl e, f') \<Longrightarrow> startsWith ty ''mock-'' \<Longrightarrow>
   getAgent env ty force f = (None, f')"
  by (subst getAgent.simps) simp

lemma cachedReady_after_update:
  "ready a \<Longrightarrow> cachedReady (f\<lparr>agents := AList.update key a (agents f)\<rparr>) key False = Some a"
  by (simp add: cachedReady_def update_conv')

lemma cachedReady_other_key:
  "key' \<noteq> key \<Longrightarrow>
   cachedReady (f\<lparr>agents := AList.update key a (agents f)\<rparr>) key' force = cachedReady f key' force"
  by (simp add: cachedReady_def update_conv')

lemma cachedReady_cong:
  "agents g = agents f \<Longrightarrow> cachedReady g key force = cachedReady f key force"
  by (simp add: cachedReady_def)

text \<open>What one resolution does, for a type that has no fallback.\<close>

lemma getAgent_mock_cases:
  assumes m: "startsWith ty ''mock-''"
  obtains (hit) a where "cachedReady f (cacheKey ty (pageType f)) force = Some a"
      "getAgent env ty force f = (Some a, f)"
    | (null) "cachedReady f (cacheKey ty (pageType f)) force = None" "\<not> creatable env ty (pageType f)"
      "getAgent env ty force f = (None, f)"
    | (created) a f' where "cachedReady f (cacheKey ty (pageType f)) force = None"
      "creatable env ty (pageType f)" "createAgent env ty f = (Inr (Some a), f')"
      "ready a" "instType a = ty" "allocated f \<le> objId (instanceObj a)"
      "objId (instanceObj a) < allocated f'" "pageType f' = pageType f" "agents f' = agents f"
      "effects f' = effects f"
      "getAgent env ty force f =
         (Some a, f'\<lparr>agents := AList.update (cacheKey ty (pageType f)) a (agents f)\<rparr>)"
proof (cases "cachedReady f (cacheKey ty (pageType f)) force")
  case (Some a)
  from hit[OF Some getAgent_hit[OF Some]] show ?thesis .
next
  case None
  show ?thesis
  proof (cases rule: createAgent_total[of env ty f])
    case (fails e)
    from null[OF None fails(1)] getAgent_null[OF None fails(2) m] show ?thesis by simp
  next
    case (succeeds a f')
    from getAgent_created[OF None succeeds(2)] succeeds
    have "getAgent env ty force f =
         (Some a, f'\<lparr>agents := AList.update (cacheKey ty (pageType f)) a (agents f)\<rparr>)"
      by simp
    from created[OF None succeeds this] show ?thesis .
  qed
qed

lemma getAgent_idem_mock:
  assumes m: "startsWith ty ''mock-''"
  shows "getAgent env ty False (snd (getAgent env ty False f)) = getAgent env ty False f"
  using m
proof (cases rule: getAgent_mock_cases[where f = f and force = False and env = env])
  case (hit a)
  then show ?thesis by simp
next
  case null
  then show ?thesis by simp
next
  case (created a f')
  let ?g = "f'\<lparr>agents := AList.update (cacheKey ty (pageType f)) a (agents f)\<rparr>"
  have "cachedReady ?g (cacheKey ty (pageType ?g)) False = Some a"
    using created(4,8) cachedReady_after_update[where a = a and f = "f'\<lparr>agents := agents f\<rparr>"
        and key = "cacheKey ty (pageType f)"]
    by simp
  from getAgent_hit[OF this] created(11) show ?thesis by simp
qed

lemma cachedReady_map_of:
  "map_of (agents g) key = map_of (agents f) key \<Longrightarrow> cachedReady g key force = cachedReady f key force"
  by (simp add: cachedReady_def)

lemma cachedReady_absent: "map_of (agents f) key = None \<Longrightarrow> cachedReady f key force = None"
  by (simp add: cachedReady_def)

lemma cachedReady_Some: "cachedReady f key force = Some a \<Longrightarrow> map_of (agents f) key = Some a"
  by (auto simp: cachedReady_def split: if_splits option.splits)

lemma getAgent_frame_mock:
  assumes m: "startsWith ty ''mock-''" and r: "getAgent env ty force f = (r, g)"
  shows "pageType g = pageType f \<and> effects g = effects f \<and> allocated f \<le> allocated g \<and>
    (\<forall>k. k \<noteq> cacheKey ty (pageType f) \<longrightarrow> map_of (agents g) k = map_of (agents f) k) \<and>
    (\<forall>a. r = Some a \<longrightarrow> map_of (agents g) (cacheKey ty (pageType f)) = Some a) \<and>
    (\<forall>a. r = Some a \<longrightarrow> map_of (agents f) (cacheKey ty (pageType f)) = None \<longrightarrow>
        allocated f \<le> objId (instanceObj a) \<and> objId (instanceObj a) < allocated g)"
  using m
proof (cases rule: getAgent_mock_cases[where f = f and force = force and env = env])
  case (hit a)
  with r have "r = Some a" "g = f" by simp_all
  with hit(1) show ?thesis by (simp add: cachedReady_Some)
next
  case null
  with r have "r = None" "g = f" by simp_all
  then show ?thesis by simp
next
  case (created a f')
  with r have rg: "r = Some a" "g = f'\<lparr>agents := AList.update (cacheKey ty (pageType f)) a (agents f)\<rparr>"
    by simp_all
  with created(6-10) show ?thesis by (simp add: update_conv')
qed

text \<open>What one resolution does, for a type that falls back to its mock type.\<close>

lemma getAgent_real_cases:
  assumes m: "\<not> startsWith ty ''mock-''"
  obtains (hit) a where "cachedReady f (cacheKey ty (pageType f)) force = Some a"
      "getAgent env ty force f = (Some a, f)"
    | (fallback) "cachedReady f (cacheKey ty (pageType f)) force = None" "\<not> creatable env ty (pageType f)"
      "getAgent env ty force f = getAgent env (''mock-'' @ ty) False f"
    | (created) a f' where "cachedReady f (cacheKey ty (pageType f)) force = None"
      "creatable env ty (pageType f)" "createAgent env ty f = (Inr (Some a), f')"
      "ready a" "instType a = ty" "allocated f \<le> objId (instanceObj a)"
      "objId (instanceObj a) < allocated f'" "pageType f' = pageType f" "agents f' = agents f"
      "effects f' = effects f"
      "getAgent env ty force f =
         (Some a, f'\<lparr>agents := AList.update (cacheKey ty (pageType f)) a (agents f)\<rparr>)"
proof (cases "cachedReady f (cacheKey ty (pageType f)) force")
  case (Some a)
  from hit[OF Some getAgent_hit[OF Some]] show ?thesis .
next
  case None
  show ?thesis
  proof (cases rule: createAgent_total[of env ty f])
    case (fails e)
    from fallback[OF None fails(1)] getAgent_fallback[OF None fails(2) m] show ?thesis by simp
  next
    case (succeeds a f')
    from getAgent_created[OF None succeeds(2)] succeeds
    have "getAgent env ty force f =
         (Some a, f'\<lparr>agents := AList.update (cacheKey ty (pageType f)) a (agents f)\<rparr>)"
      by simp
    from created[OF None succeeds this] show ?thesis .
  qed
qed

lemma getAgent_idem_real:
  assumes m: "\<not> startsWith ty ''mock-''"
  shows "getAgent env ty False (snd (getAgent env ty False f)) = getAgent env ty False f"
  using m
proof (cases rule: getAgent_real_cases[where f = f and force = False and env = env])
  case (hit a)
  then show ?thesis by simp
next
  case (created a f')
  let ?g = "f'\<lparr>agents := AList.update (cacheKey ty (pageType f)) a (agents f)\<rparr>"
  have "cachedReady ?g (cacheKey ty (pageType ?g)) False = Some a"
    using created(4,8) cachedReady_after_update[where a = a and f = "f'\<lparr>agents := agents f\<rparr>"
        and key = "cacheKey ty (pageType f)"]
    by simp
  from getAgent_hit[OF this] created(11) show ?thesis by simp
next
  case fallback
  let ?M = "''mock-'' @ ty"
  obtain r g where rg: "getAgent env ?M False f = (r, g)" by (cases "getAgent env ?M False f") auto
  have sm: "startsWith ?M ''mock-''" by (rule startsWith_mock)
  from getAgent_frame_mock[OF sm rg]
  have fr: "pageType g = pageType f"
    "\<forall>k. k \<noteq> cacheKey ?M (pageType f) \<longrightarrow> map_of (agents g) k = map_of (agents f) k"
    by simp_all
  have key: "cacheKey ty (pageType f) \<noteq> cacheKey ?M (pageType f)"
    using cacheKey_mock_neq[of ty "pageType f"] by (rule not_sym)
  have "map_of (agents g) (cacheKey ty (pageType f)) = map_of (agents f) (cacheKey ty (pageType f))"
    using fr(2)[rule_format, OF key] .
  then have c: "cachedReady g (cacheKey ty (pageType g)) False = None"
    using fallback(1) fr(1) cachedReady_map_of[of g "cacheKey ty (pageType f)" f False] by simp
  have nc: "\<not> creatable env ty (pageType g)" using fallback(2) fr(1) by simp
  from createAgent_fails[OF nc] obtain e where "createAgent env ty g = (Inl e, g)" by blast
  from getAgent_fallback[OF c this m]
  have "getAgent env ty False g = getAgent env ?M False g" .
  also have "\<dots> = getAgent env ?M False f"
    using getAgent_idem_mock[OF sm, of env f] rg by simp
  finally show ?thesis using fallback(3) rg by simp
qed

lemma getAgent_idempotent:
  "getAgent env ty False (snd (getAgent env ty False f)) = getAgent env ty False f"
  using getAgent_idem_mock getAgent_idem_real by (cases "startsWith ty ''mock-''") blast+

lemma getAgent_frame:
  assumes r: "getAgent env ty force f = (r, g)"
  shows "pageType g = pageType f \<and> effects g = effects f \<and> allocated f \<le> allocated g \<and>
    (\<forall>a. r = Some a \<longrightarrow> map_of (agents g) (cacheKey ty (pageType f)) = Some a \<or>
        map_of (agents g) (cacheKey (''mock-'' @ ty) (pageType f)) = Some a) \<and>
    (\<forall>a. r = Some a \<longrightarrow> map_of (agents f) (cacheKey ty (pageType f)) = None \<longrightarrow>
        map_of (agents f) (cacheKey (''mock-'' @ ty) (pageType f)) = None \<longrightarrow>
        allocated f \<le> objId (instanceObj a) \<and> objId (instanceObj a) < allocated g)"
proof (cases "startsWith ty ''mock-''")
  case True
  from getAgent_frame_mock[OF True r] show ?thesis by simp
next
  case False
  then show ?thesis
  proof (cases rule: getAgent_real_cases[where f = f and force = force and env = env])
    case (hit a)
    with r have "r = Some a" "g = f" by simp_all
    with hit(1) show ?thesis by (simp add: cachedReady_Some)
  next
    case (created a f')
    with r have "r = Some a" "g = f'\<lparr>agents := AList.update (cacheKey ty (pageType f)) a (agents f)\<rparr>"
      by simp_all
    with created(6-10) show ?thesis by (simp add: update_conv')
  next
    case fallback
    have sm: "startsWith (''mock-'' @ ty) ''mock-''" by (rule startsWith_mock)
    from fallback(3) r have "getAgent env (''mock-'' @ ty) False f = (r, g)" by simp
    from getAgent_frame_mock[OF sm this] show ?thesis by simp
  qed
qed

lemma delete_only_entry:
  assumes "distinct (map fst (kept @ e # es))"
  shows "AList.delete (fst e) (kept @ e # es) = kept @ es"
proof -
  have k: "\<forall>x \<in> set kept. fst x \<noteq> fst e" and r: "\<forall>x \<in> set es. fst x \<noteq> fst e"
    using assms by (force simp: image_iff)+
  have "filter (\<lambda>x. fst x \<noteq> fst e) kept = kept" using k by (intro filter_True) simp
  moreover have "filter (\<lambda>x. fst x \<noteq> fst e) es = es" using r by (intro filter_True) simp
  moreover have "AList.delete (fst e) (kept @ e # es) = filter (\<lambda>x. fst x \<noteq> fst e) (kept @ e # es)"
    by (simp add: AList.delete_eq case_prod_beta' eq_commute)
  ultimately show ?thesis by simp
qed

lemma evictStale_keep:
  "jsIncludes (fst e) p \<Longrightarrow> evictStale p e g = g"
  by (simp add: evictStale_def)

lemma evictStale_evict:
  "\<not> jsIncludes (fst e) p \<Longrightarrow>
     agents (evictStale p e g) = AList.delete (fst e) (agents g) \<and>
     effects (evictStale p e g) = effects g @ evictionEvents e \<and>
     pageType (evictStale p e g) = pageType g \<and> allocated (evictStale p e g) = allocated g"
  by (simp add: evictStale_def evictionEvents_def Let_def)

lemma evict_fold:
  assumes "distinct (map fst (kept @ es))" "agents g = kept @ es"
  shows "agents (fold (evictStale p) es g) = kept @ filter (\<lambda>e. jsIncludes (fst e) p) es \<and>
         effects (fold (evictStale p) es g) =
           effects g @ concat (map evictionEvents (filter (\<lambda>e. \<not> jsIncludes (fst e) p) es)) \<and>
         pageType (fold (evictStale p) es g) = pageType g \<and>
         allocated (fold (evictStale p) es g) = allocated g"
  using assms
proof (induction es arbitrary: g kept)
  case Nil
  then show ?case by simp
next
  case (Cons e es)
  show ?case
  proof (cases "jsIncludes (fst e) p")
    case True
    have d: "distinct (map fst ((kept @ [e]) @ es))" using Cons.prems(1) by simp
    have a: "agents g = (kept @ [e]) @ es" using Cons.prems(2) by simp
    from Cons.IH[OF d a] True show ?thesis by (simp add: evictStale_keep)
  next
    case False
    let ?g = "evictStale p e g"
    note ev = evictStale_evict[OF False, of g]
    have d: "distinct (map fst (kept @ es))" using Cons.prems(1) by simp
    have a: "agents ?g = kept @ es"
      using ev Cons.prems(2) delete_only_entry[OF Cons.prems(1)] by simp
    from Cons.IH[OF d a] ev False show ?thesis by simp
  qed
qed

lemma updateContext_spec:
  assumes "distinct (map fst (agents f))"
  shows "agents (updateContext newPage f) = filter (\<lambda>e. jsIncludes (fst e) newPage) (agents f) \<and>
         effects (updateContext newPage f) =
           effects f @ concat (map evictionEvents (filter (\<lambda>e. \<not> jsIncludes (fst e) newPage) (agents f))) \<and>
         pageType (updateContext newPage f) = newPage \<and>
         allocated (updateContext newPage f) = allocated f"
  using evict_fold[where kept = "[]" and es = "agents f" and g = "f\<lparr>pageType := newPage\<rparr>" and p = newPage]
    assms
  by (simp add: updateContext_def)

lemma key_matches_page_all:
  "list_all (\<lambda>t. list_all (\<lambda>q. list_all (\<lambda>p. jsIncludes (cacheKey t q) p = (q = p)) pageTypes) pageTypes) agentTypes"
  by code_simp

lemma key_matches_page:
  "t \<in> set agentTypes \<Longrightarrow> q \<in> set pageTypes \<Longrightarrow> p \<in> set pageTypes \<Longrightarrow>
     jsIncludes (cacheKey t q) p = (q = p)"
  using key_matches_page_all unfolding list_all_iff by blast

lemma getAgentWithContext_idempotent:
  "getAgentWithContext env ty page (snd (getAgentWithContext env ty page f)) =
     getAgentWithContext env ty page f"
proof -
  let ?f = "getInstance page f"
  obtain r g where rg: "getAgent env ty False ?f = (r, g)" by (cases "getAgent env ty False ?f") auto
  from getAgent_frame[OF rg] have "pageType g = page" by (simp add: getInstance_def)
  then have "getInstance page g = g" by (simp add: getInstance_def)
  with getAgent_idempotent[of env ty ?f] rg show ?thesis
    by (simp add: getAgentWithContext_def)
qed

text \<open>Claim C8 (registry cache). Resolving an agent type twice under an unchanged page
  type returns the same instance and leaves the factory as the first resolution left it, and
  the instance returned is the cached one. \<open>updateContext\<close> keeps exactly the entries
  whose key includes the new page type, in their order, and for every other entry invokes
  \<open>destroy\<close>, if the instance has such a method, and then evicts it. A later
  resolution of a type with no entry left under the new page type allocates a fresh object;
  this is the case for every type when all cached keys belong to the old page type.\<close>
theorem C8_registry_cache:
  "getAgent env ty False (snd (getAgent env ty False f)) = getAgent env ty False f \<and>
   getAgentWithContext env ty page (snd (getAgentWithContext env ty page f)) =
     getAgentWithContext env ty page f \<and>
   (\<forall>a. fst (getAgent env ty False f) = Some a \<longrightarrow>
      map_of (agents (snd (getAgent env ty False f))) (cacheKey ty (pageType f)) = Some a \<or>
      map_of (agents (snd (getAgent env ty False f))) (cacheKey (''mock-'' @ ty) (pageType f)) = Some a) \<and>
   (distinct (map fst (agents f)) \<longrightarrow>
      agents (updateContext newPage f) = filter (\<lambda>e. jsIncludes (fst e) newPage) (agents f) \<and>
      effects (updateContext newPage f) =
        effects f @ concat (map evictionEvents (filter (\<lambda>e. \<not> jsIncludes (fst e) newPage) (agents f))) \<and>
      pageType (updateContext newPage f) = newPage \<and>
      allocated (updateContext newPage f) = allocated f) \<and>
   (\<forall>a g. getAgent env ty False (updateContext newPage f) = (Some a, g) \<longrightarrow>
      map_of (agents (updateContext newPage f)) (cacheKey ty (pageType (updateContext newPage f))) = None \<longrightarrow>
      map_of (agents (updateContext newPage f))
        (cacheKey (''mock-'' @ ty) (pageType (updateContext newPage f))) = None \<longrightarrow>
      allocated (updateContext newPage f) \<le> objId (instanceObj a) \<and> objId (instanceObj a) < allocated g) \<and>
   (distinct (map fst (agents f)) \<and>
    (\<forall>e \<in> set (agents f). \<exists>t \<in> set agentTypes. fst e = cacheKey t (pageType f)) \<and>
    pageType f \<in> set pageTypes \<and> newPage \<in> set pageTypes \<and> newPage \<noteq> pageType f \<longrightarrow>
      agents (updateContext newPage f) = [] \<and>
      effects (updateContext newPage f) = effects f @ concat (map evictionEvents (agents f)) \<and>
      (\<forall>a g. getAgent env ty False (updateContext newPage f) = (Some a, g) \<longrightarrow>
         allocated f \<le> objId (instanceObj a) \<and> objId (instanceObj a) < allocated g))"
proof (intro conjI)
  show "getAgent env ty False (snd (getAgent env ty False f)) = getAgent env ty False f"
    by (rule getAgent_idempotent)
  show "getAgentWithContext env ty page (snd (getAgentWithContext env ty page f)) =
     getAgentWithContext env ty page f"
    by (rule getAgentWithContext_idempotent)
  show "\<forall>a. fst (getAgent env ty False f) = Some a \<longrightarrow>
      map_of (agents (snd (getAgent env ty False f))) (cacheKey ty (pageType f)) = Some a \<or>
      map_of (agents (snd (getAgent env ty False f))) (cacheKey (''mock-'' @ ty) (pageType f)) = Some a"
    using getAgent_frame[of env ty False f "fst (getAgent env ty False f)" "snd (getAgent env ty False f)"]
    by simp
  show "distinct (map fst (agents f)) \<longrightarrow>
      agents (updateContext newPage f) = filter (\<lambda>e. jsIncludes (fst e) newPage) (agents f) \<and>
      effects (updateContext newPage f) =
        effects f @ concat (map evictionEvents (filter (\<lambda>e. \<not> jsIncludes (fst e) newPage) (agents f))) \<and>
      pageType (updateContext newPage f) = newPage \<and>
      allocated (updateContext newPage f) = allocated f"
    using updateContext_spec by blast
  show "\<forall>a g. getAgent env ty False (updateContext newPage f) = (Some a, g) \<longrightarrow>
      map_of (agents (updateContext newPage f)) (cacheKey ty (pageType (updateContext newPage f))) = None \<longrightarrow>
      map_of (agents (updateContext newPage f))
        (cacheKey (''mock-'' @ ty) (pageType (updateContext newPage f))) = None \<longrightarrow>
      allocated (updateContext newPage f) \<le> objId (instanceObj a) \<and> objId (instanceObj a) < allocated g"
  proof (intro allI impI)
    fix a g
    assume "getAgent env ty False (updateContext newPage f) = (Some a, g)"
      and "map_of (agents (updateContext newPage f)) (cacheKey ty (pageType (updateContext newPage f))) = None"
      and "map_of (agents (updateContext newPage f))
        (cacheKey (''mock-'' @ ty) (pageType (updateContext newPage f))) = None"
    with getAgent_frame[of env ty False "updateContext newPage f" "Some a" g]
    show "allocated (updateContext newPage f) \<le> objId (instanceObj a) \<and> objId (instanceObj a) < allocated g"
      by simp
  qed
  show "distinct (map fst (agents f)) \<and>
    (\<forall>e \<in> set (agents f). \<exists>t \<in> set agentTypes. fst e = cacheKey t (pageType f)) \<and>
    pageType f \<in> set pageTypes \<and> newPage \<in> set pageTypes \<and> newPage \<noteq> pageType f \<longrightarrow>
      agents (updateContext newPage f) = [] \<and>
      effects (updateContext newPage f) = effects f @ concat (map evictionEvents (agents f)) \<and>
      (\<forall>a g. getAgent env ty False (updateContext newPage f) = (Some a, g) \<longrightarrow>
         allocated f \<le> objId (instanceObj a) \<and> objId (instanceObj a) < allocated g)"
  proof
    assume h: "distinct (map fst (agents f)) \<and>
      (\<forall>e \<in> set (agents f). \<exists>t \<in> set agentTypes. fst e = cacheKey t (pageType f)) \<and>
      pageType f \<in> set pageTypes \<and> newPage \<in> set pageTypes \<and> newPage \<noteq> pageType f"
    have none: "\<not> jsIncludes (fst e) newPage" if "e \<in> set (agents f)" for e
    proof -
      from h that obtain t where t: "t \<in> set agentTypes" "fst e = cacheKey t (pageType f)" by blast
      from h have p: "pageType f \<in> set pageTypes" "newPage \<in> set pageTypes" "pageType f \<noteq> newPage"
        by auto
      from key_matches_page[OF t(1) p(1,2)] p(3) t(2) show ?thesis by simp
    qed
    then have f1: "filter (\<lambda>e. jsIncludes (fst e) newPage) (agents f) = []"
      and f2: "filter (\<lambda>e. \<not> jsIncludes (fst e) newPage) (agents f) = agents f"
      by (simp_all add: filter_empty_conv)
    from updateContext_spec[of f newPage] h f1 f2
    have u: "agents (updateContext newPage f) = []"
      "effects (updateContext newPage f) = effects f @ concat (map evictionEvents (agents f))"
      "allocated (updateContext newPage f) = allocated f"
      by simp_all
    have "\<forall>a g. getAgent env ty False (updateContext newPage f) = (Some a, g) \<longrightarrow>
         allocated f \<le> objId (instanceObj a) \<and> objId (instanceObj a) < allocated g"
    proof (intro allI impI)
      fix a g assume "getAgent env ty False (updateContext newPage f) = (Some a, g)"
      from getAgent_frame[OF this] u(1,3)
      show "allocated f \<le> objId (instanceObj a) \<and> objId (instanceObj a) < allocated g" by simp
    qed
    with u show "agents (updateContext newPage f) = [] \<and>
      effects (updateContext newPage f) = effects f @ concat (map evictionEvents (agents f)) \<and>
      (\<forall>a g. getAgent env ty False (updateContext newPage f) = (Some a, g) \<longrightarrow>
         allocated f \<le> objId (instanceObj a) \<and> objId (instanceObj a) < allocated g)"
      by simp
  qed
qed

lemma detailFactory_eq:
  "detailFactory = \<lparr>agents = [(''seo-item-detail'', firstSeo)], pageType = ''item-detail'',
                    allocated = 1, effects = []\<rparr>"
  by code_simp

lemma first_resolution:
  "getAgent squareEnv ''seo'' False (newFactory ''item-detail'') = (Some firstSeo, detailFactory)"
  by code_simp

text \<open>A factory that still holds an entry for the item detail page when the
  context changes back to that page: the entry survives \<open>updateContext\<close> and the next
  resolution returns it, with no fresh object allocated.\<close>
theorem C8_counterexample:
  "getAgent squareEnv ''seo'' False (newFactory ''item-detail'') = (Some firstSeo, detailFactory) \<and>
   pageType staleFactory = ''items-library'' \<and>
   map fst (agents staleFactory) = [''seo-item-detail'', ''seo-items-library''] \<and>
   allocated staleFactory = 2 \<and>
   effects (updateContext ''item-detail'' staleFactory) = [Destroyed 1, Evicted ''seo-items-library''] \<and>
   fst (getAgent squareEnv ''seo'' False (updateContext ''item-detail'' staleFactory)) = Some firstSeo \<and>
   objId (instanceObj firstSeo) = 0 \<and>
   allocated (snd (getAgent squareEnv ''seo'' False (updateContext ''item-detail'' staleFactory))) = 2"
  by code_simp

text \<open>Instance of C8: the SEO agent on an item detail page, before and after a change
  to the dashboard.\<close>
theorem C8_witness:
  "getAgent squareEnv ''seo'' False (newFactory ''item-detail'') = (Some firstSeo, detailFactory) \<and>
   getAgent squareEnv ''seo'' False detailFactory = (Some firstSeo, detailFactory) \<and>
   distinct (map fst (agents detailFactory)) \<and>
   agents (updateContext ''dashboard'' detailFactory) = [] \<and>
   effects (updateContext ''dashboard'' detailFactory) = [Destroyed 0, Evicted ''seo-item-detail''] \<and>
   (\<exists>a g. getAgent squareEnv ''seo'' False (updateContext ''dashboard'' detailFactory) = (Some a, g) \<and>
      allocated detailFactory \<le> objId (instanceObj a) \<and> objId (instanceObj a) < allocated g)"
proof -
  note C = C8_registry_cache[where env = squareEnv and ty = "''seo''"]
  have again: "getAgent squareEnv ''seo'' False detailFactory = (Some firstSeo, detailFactory)"
    using C[where f = "newFactory ''item-detail''", THEN conjunct1] first_resolution by simp
  have d: "distinct (map fst (agents detailFactory))" by (simp add: detailFactory_eq)
  have k: "\<forall>e \<in> set (agents detailFactory). \<exists>t \<in> set agentTypes. fst e = cacheKey t (pageType detailFactory)"
    by (simp add: detailFactory_eq agentTypes_def cacheKey_def)
  have p: "pageType detailFactory \<in> set pageTypes" "''dashboard'' \<in> set pageTypes"
    "''dashboard'' \<noteq> pageType detailFactory"
    by (simp_all add: detailFactory_eq pageTypes_def)
  have "case getAgent squareEnv ''seo'' False (updateContext ''dashboard'' detailFactory) of
          (None, g) \<Rightarrow> False | (Some a, g) \<Rightarrow> True"
    by code_simp
  then obtain a g where r: "getAgent squareEnv ''seo'' False (updateContext ''dashboard'' detailFactory) = (Some a, g)"
    by (auto split: prod.splits option.splits)
  from C[where f = detailFactory and newPage = "''dashboard''", THEN conjunct2, THEN conjunct2,
      THEN conjunct2, THEN conjunct2, THEN conjunct2] d k p
  have u: "agents (updateContext ''dashboard'' detailFactory) = []"
    "effects (updateContext ''dashboard'' detailFactory) =
       effects detailFactory @ concat (map evictionEvents (agents detailFactory))"
    "\<forall>a g. getAgent squareEnv ''seo'' False (updateContext ''dashboard'' detailFactory) = (Some a, g) \<longrightarrow>
         allocated detailFactory \<le> objId (instanceObj a) \<and> objId (instanceObj a) < allocated g"
    by blast+
  have e: "effects (updateContext ''dashboard'' detailFactory) = [Destroyed 0, Evicted ''seo-item-detail'']"
    unfolding u(2) by (simp add: detailFactory_eq evictionEvents_def firstSeo_def)
  from u(3) r have "getAgent squareEnv ''seo'' False (updateContext ''dashboard'' detailFactory) = (Some a, g) \<and>
      allocated detailFactory \<le> objId (instanceObj a) \<and> objId (instanceObj a) < allocated g"
    by blast
  then have ex: "\<exists>a g. getAgent squareEnv ''seo'' False (updateContext ''dashboard'' detailFactory) = (Some a, g) \<and>
      allocated detailFactory \<le> objId (instanceObj a) \<and> objId (instanceObj a) < allocated g"
    by (intro exI[of _ a] exI[of _ g])
  from first_resolution again d u(1) e ex show ?thesis by (intro conjI)
qed

end
